theory Spec2Isabelle
  imports Main "HOL-Library.Word" "HOL-Library.Monad_Syntax" "HOL-Library.Sublist"
begin

section \<open>The single-producer/single-consumer ring buffer of GSdx\<close>

text \<open>
  A shallow embedding of \<^verbatim>\<open>plugins/GSdx/boost_spsc_queue.hpp\<close>, the class
  \<^verbatim>\<open>template <typename T, size_t max_size> class ringbuffer_base\<close>.

  \<^item> \<^verbatim>\<open>size_t\<close> is the type \<open>'w word\<close> of machine words of any width \<open>'w\<close>, so
    that the 32-bit and the 64-bit builds are both instances; \<open>+\<close> and \<open>-\<close> wrap
    around as in C++. The examples are evaluated at 64 bits.
  \<^item> The template argument \<^verbatim>\<open>max_size\<close> is the first argument of every operation.
    It is the number of slots of the storage block; the number of usable slots
    (the capacity) is \<open>max_size - 1\<close>.
  \<^item> The two \<^verbatim>\<open>atomic<size_t>\<close> cursors \<^verbatim>\<open>write_index_\<close> and \<^verbatim>\<open>read_index_\<close> are
    the plain fields \<open>write_index_atomic\<close> and \<open>read_index_atomic\<close> (a name cannot end
    with an underscore here): the model is sequential,
    every operation runs to its end before the next one starts, and the memory orders
    of the loads and stores are not represented. The padding arrays are left out.
  \<^item> The payload type \<^verbatim>\<open>T\<close> is the type variable \<open>'a\<close>. A piece of storage of
    type \<^verbatim>\<open>T\<close> either holds a live object or does not (raw memory, or an object whose
    destructor has run).
  \<^item> Every call of a special member function of \<^verbatim>\<open>T\<close> that the class makes is
    appended to a trace, so that what is constructed, copied and destroyed, and how
    often, can be stated.
  \<^item> Behaviour without a defined result is the value \<open>None\<close>: the remainder by a
    \<^verbatim>\<open>max_size\<close> of zero and an access outside the storage block.
  \<^item> A copy from, or a destructor call on, a slot that holds no object is not cut off
    in this way: the class makes the call whatever the slot holds, so the model records
    the call in the trace with the content \<open>Raw\<close>, and the copy delivers \<open>Raw\<close>.
\<close>

subsection \<open>Data\<close>

datatype 'a slot = Raw | Live 'a

text \<open>
  The calls into \<^verbatim>\<open>T\<close>. A slot of the buffer is named by its index; the content
  recorded with a call is what the storage held when the call was made.
  \<^item> \<open>Default_Construct\<close>: \<^verbatim>\<open>T out;\<close>
  \<^item> \<open>Copy_Construct i v\<close>: \<^verbatim>\<open>new (buffer + i) T(t)\<close> with \<open>t\<close> of value \<open>v\<close>
  \<^item> \<open>Copy_Assign i c\<close>: \<^verbatim>\<open>ret = buffer[i]\<close>, the slot holding \<open>c\<close>
  \<^item> \<open>Destroy i c\<close>: \<^verbatim>\<open>buffer[i].~T()\<close>, the slot holding \<open>c\<close>
  \<^item> \<open>Destroy_Local c\<close>: the end of the scope of the local \<^verbatim>\<open>out\<close>, holding \<open>c\<close>
\<close>

datatype 'a call =
    Default_Construct
  | Copy_Construct nat 'a
  | Copy_Assign nat "'a slot"
  | Destroy nat "'a slot"
  | Destroy_Local "'a slot"

text \<open>
  The fields of the class, and the trace. \<open>buffer\<close> is the storage block that the
  pointer \<^verbatim>\<open>T *buffer\<close> refers to, one entry per slot.
\<close>

record (overloaded) ('a, 'w) ringbuffer_base =
  write_index_atomic :: "'w word"
  read_index_atomic :: "'w word"
  pending_pop_read_index :: "'w word"
  buffer :: "'a slot list"
  trace :: "'a call list"

subsection \<open>Access to the storage block\<close>

text \<open>\<^verbatim>\<open>new (buffer + i) T(t)\<close>: the copy constructor of \<^verbatim>\<open>T\<close> runs on slot \<open>i\<close>.\<close>

definition construct_at ::
  "'w::len word \<Rightarrow> 'a \<Rightarrow> ('a, 'w) ringbuffer_base \<Rightarrow> ('a, 'w) ringbuffer_base option" where
  "construct_at i t s =
     (if unat i < length (buffer s)
      then Some (s\<lparr>buffer := (buffer s)[unat i := Live t],
                   trace := trace s @ [Copy_Construct (unat i) t]\<rparr>)
      else None)"

text \<open>\<^verbatim>\<open>buffer[i]\<close> read as a value.\<close>

definition slot_at :: "'w::len word \<Rightarrow> ('a, 'w) ringbuffer_base \<Rightarrow> 'a slot option" where
  "slot_at i s = (if unat i < length (buffer s) then Some (buffer s ! unat i) else None)"

text \<open>\<^verbatim>\<open>ret = buffer[i]\<close>: the copy assignment of \<^verbatim>\<open>T\<close> runs with slot \<open>i\<close> as its source.\<close>

definition copy_from ::
  "'w::len word \<Rightarrow> ('a, 'w) ringbuffer_base \<Rightarrow>
     ('a slot \<times> ('a, 'w) ringbuffer_base) option" where
  "copy_from i s =
     do {
       c \<leftarrow> slot_at i s;
       Some (c, s\<lparr>trace := trace s @ [Copy_Assign (unat i) c]\<rparr>)
     }"

text \<open>\<^verbatim>\<open>buffer[i].~T()\<close>: the destructor of \<^verbatim>\<open>T\<close> runs on slot \<open>i\<close>.\<close>

definition destroy_at ::
  "'w::len word \<Rightarrow> ('a, 'w) ringbuffer_base \<Rightarrow> ('a, 'w) ringbuffer_base option" where
  "destroy_at i s =
     do {
       c \<leftarrow> slot_at i s;
       Some (s\<lparr>buffer := (buffer s)[unat i := Raw],
                trace := trace s @ [Destroy (unat i) c]\<rparr>)
     }"

subsection \<open>The operations of the class\<close>

text \<open>
  The constructor: both cursors and the pending index are 0, and the block of
  \<^verbatim>\<open>max_size\<close> slots comes from \<^verbatim>\<open>_aligned_malloc\<close>, with no object in any slot.
  The allocation is taken to succeed.
\<close>

definition ringbuffer_base_ctor :: "'w::len word \<Rightarrow> ('a, 'w) ringbuffer_base" where
  "ringbuffer_base_ctor max_size =
     \<lparr>write_index_atomic = 0, read_index_atomic = 0, pending_pop_read_index = 0,
      buffer = replicate (unat max_size) Raw, trace = []\<rparr>"

definition next_index :: "'w::len word \<Rightarrow> 'w word \<Rightarrow> 'w word option" where
  "next_index max_size arg =
     (let ret = arg + 1
      in if max_size = 0 then None else Some (ret mod max_size))"

text \<open>The private \<^verbatim>\<open>empty(size_t write_index, size_t read_index)\<close>.\<close>

definition empty_indices :: "'w::len word \<Rightarrow> 'w word \<Rightarrow> bool" where
  "empty_indices write_index read_index = (write_index = read_index)"

definition push ::
  "'w::len word \<Rightarrow> 'a \<Rightarrow> ('a, 'w) ringbuffer_base \<Rightarrow>
     (bool \<times> ('a, 'w) ringbuffer_base) option" where
  "push max_size t s =
     do {
       let write_index = write_index_atomic s;
       next \<leftarrow> next_index max_size write_index;
       if next = read_index_atomic s then Some (False, s)
       else do {
         s1 \<leftarrow> construct_at write_index t s;
         Some (True, s1\<lparr>write_index_atomic := next\<rparr>)
       }
     }"

text \<open>
  \<^verbatim>\<open>bool pop(T & ret)\<close>. The argument \<open>ret\<close> is what the caller's variable holds
  before the call; the second component of the result is what it holds after, a copy of
  the content of the slot at the read cursor.
\<close>

definition pop ::
  "'w::len word \<Rightarrow> 'a slot \<Rightarrow> ('a, 'w) ringbuffer_base \<Rightarrow>
     (bool \<times> 'a slot \<times> ('a, 'w) ringbuffer_base) option" where
  "pop max_size ret s =
     do {
       let write_index = write_index_atomic s;
       let read_index = read_index_atomic s;
       if empty_indices write_index read_index then Some (False, ret, s)
       else do {
         (ret', s1) \<leftarrow> copy_from read_index s;
         s2 \<leftarrow> destroy_at read_index s1;
         next \<leftarrow> next_index max_size read_index;
         Some (True, ret', s2\<lparr>read_index_atomic := next\<rparr>)
       }
     }"

text \<open>
  \<^verbatim>\<open>T& front()\<close>. The reference that is returned is the index of the slot it
  refers to.
\<close>

definition front ::
  "('a, 'w::len) ringbuffer_base \<Rightarrow> 'w word \<times> ('a, 'w) ringbuffer_base" where
  "front s =
     (let s1 = s\<lparr>pending_pop_read_index := read_index_atomic s\<rparr>
      in (pending_pop_read_index s1, s1))"

text \<open>\<^verbatim>\<open>void pop()\<close>, the overload without an argument.\<close>

definition pop_noarg ::
  "'w::len word \<Rightarrow> ('a, 'w) ringbuffer_base \<Rightarrow> ('a, 'w) ringbuffer_base option" where
  "pop_noarg max_size s =
     do {
       s1 \<leftarrow> destroy_at (pending_pop_read_index s) s;
       next \<leftarrow> next_index max_size (pending_pop_read_index s);
       Some (s1\<lparr>read_index_atomic := next\<rparr>)
     }"

text \<open>
  \<^verbatim>\<open>bool consume_one(Functor & f)\<close>. The functor is a function from the content
  of the slot it is called on to a change of its own state \<open>fs\<close>; the slot is
  destroyed right after the call, and what the functor may write to it is not modelled.
\<close>

definition consume_one ::
  "'w::len word \<Rightarrow> ('a slot \<Rightarrow> 'f \<Rightarrow> 'f) \<Rightarrow> 'f \<Rightarrow> ('a, 'w) ringbuffer_base \<Rightarrow>
     (bool \<times> 'f \<times> ('a, 'w) ringbuffer_base) option" where
  "consume_one max_size f fs s =
     do {
       let write_index = write_index_atomic s;
       let read_index = read_index_atomic s;
       if empty_indices write_index read_index then Some (False, fs, s)
       else do {
         c \<leftarrow> slot_at read_index s;
         let fs' = f c fs;
         s1 \<leftarrow> destroy_at read_index s;
         next \<leftarrow> next_index max_size read_index;
         Some (True, fs', s1\<lparr>read_index_atomic := next\<rparr>)
       }
     }"

definition reset :: "('a, 'w::len) ringbuffer_base \<Rightarrow> ('a, 'w) ringbuffer_base" where
  "reset s = (s\<lparr>write_index_atomic := 0\<rparr>)\<lparr>read_index_atomic := 0\<rparr>"

text \<open>\<^verbatim>\<open>bool empty(void)\<close>.\<close>

definition empty_rb :: "('a, 'w::len) ringbuffer_base \<Rightarrow> bool" where
  "empty_rb s = empty_indices (write_index_atomic s) (read_index_atomic s)"

text \<open>\<^verbatim>\<open>size_t size() const\<close>.\<close>

definition size_rb :: "'w::len word \<Rightarrow> ('a, 'w) ringbuffer_base \<Rightarrow> 'w word" where
  "size_rb max_size s =
     (let write_index = write_index_atomic s;
          read_index = read_index_atomic s
      in if read_index > write_index then (write_index + max_size) - read_index
         else write_index - read_index)"

text \<open>
  The destructor. \<open>drain\<close> is the loop \<^verbatim>\<open>while (pop(out)) {};\<close>. It is a partial
  function: where the loop does not end, or an operation in it has no defined
  result, its value is \<open>None\<close>.
\<close>

partial_function (option) drain ::
  "'w::len word \<Rightarrow> 'a slot \<Rightarrow> ('a, 'w) ringbuffer_base \<Rightarrow>
     ('a slot \<times> ('a, 'w) ringbuffer_base) option" where
  "drain max_size out s =
     do {
       (b, out', s') \<leftarrow> pop max_size out s;
       if b then drain max_size out' s' else Some (out', s')
     }"

declare drain.simps [code]

text \<open>
  \<^verbatim>\<open>~ringbuffer_base\<close>. The local \<^verbatim>\<open>T out;\<close> is default-constructed, so the
  model takes the value \<open>dflt\<close> that the default constructor of \<^verbatim>\<open>T\<close> produces.
  After the loop the block is freed, and \<^verbatim>\<open>out\<close> is destroyed where its scope ends.
\<close>

definition ringbuffer_base_dtor ::
  "'w::len word \<Rightarrow> 'a \<Rightarrow> ('a, 'w) ringbuffer_base \<Rightarrow> ('a, 'w) ringbuffer_base option" where
  "ringbuffer_base_dtor max_size dflt s =
     do {
       let s0 = s\<lparr>trace := trace s @ [Default_Construct]\<rparr>;
       (out, s1) \<leftarrow> drain max_size (Live dflt) s0;
       let s2 = s1\<lparr>buffer := []\<rparr>;
       Some (s2\<lparr>trace := trace s2 @ [Destroy_Local out]\<rparr>)
     }"

subsection \<open>A producer and a consumer\<close>

text \<open>
  The calls that the producer thread (\<open>Push\<close>) and the consumer thread (\<open>Pop\<close> with
  the variable \<open>out_var\<close>, \<open>Consume_One\<close> with a functor that records what it is given)
  make on one queue, in the order in which they take effect. The client records the
  value of every \<^verbatim>\<open>push\<close> that returned \<^verbatim>\<open>true\<close>, what every \<^verbatim>\<open>pop\<close> and
  \<^verbatim>\<open>consume_one\<close> that returned \<^verbatim>\<open>true\<close> delivered, and what every call returned.
\<close>

datatype 'a op = Push 'a | Pop | Consume_One

record (overloaded) ('a, 'w) client =
  queue :: "('a, 'w) ringbuffer_base"
  out_var :: "'a slot"
  pushed :: "'a list"
  received :: "'a slot list"
  returns :: "bool list"

definition recorder :: "'a slot \<Rightarrow> 'a slot list \<Rightarrow> 'a slot list" where
  "recorder c rs = rs @ [c]"

fun step ::
  "'w::len word \<Rightarrow> 'a op \<Rightarrow> ('a, 'w) client \<Rightarrow> ('a, 'w) client option" where
  "step max_size (Push v) c =
     do {
       (b, q) \<leftarrow> push max_size v (queue c);
       Some (c\<lparr>queue := q,
                pushed := (if b then pushed c @ [v] else pushed c),
                returns := returns c @ [b]\<rparr>)
     }"
| "step max_size Pop c =
     do {
       (b, out, q) \<leftarrow> pop max_size (out_var c) (queue c);
       Some (c\<lparr>queue := q, out_var := out,
                received := (if b then received c @ [out] else received c),
                returns := returns c @ [b]\<rparr>)
     }"
| "step max_size Consume_One c =
     do {
       (b, rs, q) \<leftarrow> consume_one max_size recorder (received c) (queue c);
       Some (c\<lparr>queue := q, received := rs, returns := returns c @ [b]\<rparr>)
     }"

fun run ::
  "'w::len word \<Rightarrow> 'a op list \<Rightarrow> ('a, 'w) client \<Rightarrow> ('a, 'w) client option" where
  "run max_size [] c = Some c"
| "run max_size (x # xs) c = do { c' \<leftarrow> step max_size x c; run max_size xs c' }"

text \<open>A freshly constructed queue; \<open>out0\<close> is what the consumer's variable holds.\<close>

definition start :: "'w::len word \<Rightarrow> 'a slot \<Rightarrow> ('a, 'w) client" where
  "start max_size out0 =
     \<lparr>queue = ringbuffer_base_ctor max_size, out_var = out0,
      pushed = [], received = [], returns = []\<rparr>"

subsection \<open>Reading a trace\<close>

text \<open>The destructor calls on slots of the buffer, in order: the slot and what it held.\<close>

fun destroyed :: "'a call list \<Rightarrow> (nat \<times> 'a slot) list" where
  "destroyed [] = []"
| "destroyed (Destroy i c # tr) = (i, c) # destroyed tr"
| "destroyed (_ # tr) = destroyed tr"

text \<open>A call that needs no more of \<^verbatim>\<open>T\<close> than a copy constructor and a destructor.\<close>

fun copy_construct_or_destroy :: "'a call \<Rightarrow> bool" where
  "copy_construct_or_destroy (Copy_Construct i v) = True"
| "copy_construct_or_destroy (Destroy i c) = True"
| "copy_construct_or_destroy (Destroy_Local c) = True"
| "copy_construct_or_destroy Default_Construct = False"
| "copy_construct_or_destroy (Copy_Assign i c) = False"

text \<open>
  The calls that the loop \<^verbatim>\<open>while (pop(out)) {};\<close> makes on a block of \<open>n\<close> slots
  whose elements \<open>xs\<close> start at slot \<open>r\<close>.
\<close>

fun drain_calls :: "nat \<Rightarrow> nat \<Rightarrow> 'a list \<Rightarrow> 'a call list" where
  "drain_calls n r [] = []"
| "drain_calls n r (x # xs) =
     Copy_Assign r (Live x) # Destroy r (Live x) # drain_calls n (Suc r mod n) xs"

subsection \<open>The occupied slots\<close>

text \<open>
  The state \<open>s\<close> of a queue with \<open>max_size\<close> slots holds the elements \<open>xs\<close>, oldest
  first: the cursors are inside the block, the write cursor is \<open>length xs\<close> steps ahead
  of the read cursor around the ring, the slots from the read cursor on hold \<open>xs\<close>, and
  every other slot holds no object.
\<close>

definition holds ::
  "'w::len word \<Rightarrow> ('a, 'w) ringbuffer_base \<Rightarrow> 'a list \<Rightarrow> bool" where
  "holds max_size s xs \<longleftrightarrow>
     length (buffer s) = unat max_size \<and>
     read_index_atomic s < max_size \<and>
     length xs < unat max_size \<and>
     unat (write_index_atomic s) = (unat (read_index_atomic s) + length xs) mod unat max_size \<and>
     (\<forall>k<length xs.
        buffer s ! ((unat (read_index_atomic s) + k) mod unat max_size) = Live (xs ! k)) \<and>
     (\<forall>j<unat max_size.
        (\<forall>k<length xs. j \<noteq> (unat (read_index_atomic s) + k) mod unat max_size) \<longrightarrow>
        buffer s ! j = Raw)"

text \<open>The values pushed and not yet delivered.\<close>

definition remaining :: "('a, 'w::len) client \<Rightarrow> 'a list" where
  "remaining c = drop (length (received c)) (pushed c)"

text \<open>The indices of the first \<open>k\<close> slots from the read cursor on, around the ring.\<close>

definition slots_from_read ::
  "'w::len word \<Rightarrow> ('a, 'w) ringbuffer_base \<Rightarrow> nat \<Rightarrow> nat list" where
  "slots_from_read max_size s k =
     map (\<lambda>j. (unat (read_index_atomic s) + j) mod unat max_size) [0..<k]"

text \<open>
  The client has delivered a prefix of what was pushed, and its queue holds the rest.
\<close>

definition client_ok ::
  "'w::len word \<Rightarrow> ('a, 'w) client \<Rightarrow> 'a list \<Rightarrow> bool" where
  "client_ok ms c xs \<longleftrightarrow>
     holds ms (queue c) xs \<and> map Live (pushed c) = received c @ map Live xs"

section \<open>Index arithmetic\<close>

lemma cyc_inj_le:
  fixes n r k k' :: nat
  assumes "k \<le> k'" "k' < n" "(r + k) mod n = (r + k') mod n"
  shows "k = k'"
proof -
  have "(r + k') mod n = (r + k) mod n" using assms(3) by simp
  moreover have "r + k \<le> r + k'" using assms(1) by simp
  ultimately have "n dvd (r + k') - (r + k)" by (simp add: mod_eq_dvd_iff_nat)
  then have "n dvd k' - k" by simp
  moreover have "k' - k < n" using assms(2) by simp
  ultimately have "k' - k = 0" by (meson dvd_imp_le not_less zero_less_iff_neq_zero)
  with assms(1) show ?thesis by simp
qed

lemma cyc_inj:
  fixes n r k k' :: nat
  assumes "k < n" "k' < n" "(r + k) mod n = (r + k') mod n"
  shows "k = k'"
proof (cases "k \<le> k'")
  case True
  then show ?thesis using assms cyc_inj_le by blast
next
  case False
  then have "k' \<le> k" by simp
  then have "k' = k" using assms cyc_inj_le [of k' k n r] by simp
  then show ?thesis by simp
qed

lemma full_iff:
  fixes n r len :: nat
  assumes "r < n" "len < n"
  shows "Suc ((r + len) mod n) mod n = r \<longleftrightarrow> Suc len = n"
proof -
  have e: "Suc ((r + len) mod n) mod n = (r + Suc len) mod n"
    by (simp add: mod_Suc_eq)
  show ?thesis
  proof
    assume "Suc ((r + len) mod n) mod n = r"
    then have "(r + Suc len) mod n = (r + 0) mod n" using e assms by simp
    then have "n dvd (r + Suc len) - (r + 0)"
      by (subst (asm) mod_eq_dvd_iff_nat) simp_all
    then have "n dvd Suc len" by simp
    then have "n \<le> Suc len" by (rule dvd_imp_le) simp
    with assms show "Suc len = n" by simp
  next
    assume "Suc len = n"
    then have "(r + Suc len) mod n = r" using assms by simp
    with e show "Suc ((r + len) mod n) mod n = r" by simp
  qed
qed

lemma cyc_distinct:
  fixes n r len :: nat
  assumes "len < n"
  shows "distinct (map (\<lambda>k. (r + k) mod n) [0..<len])"
proof -
  have "inj_on (\<lambda>k. (r + k) mod n) (set [0..<len])"
  proof (rule inj_onI)
    fix k k' assume "k \<in> set [0..<len]" "k' \<in> set [0..<len]" "(r + k) mod n = (r + k') mod n"
    then show "k = k'" using cyc_inj [of k n k' r] assms by simp
  qed
  then show ?thesis by (simp add: distinct_map)
qed

text \<open>No cursor below \<open>max_size\<close> overflows when it is advanced.\<close>

lemma unat_succ_lt:
  assumes "a < (ms::'w::len word)"
  shows "unat (a + 1) = Suc (unat a)"
proof -
  have "unat a < unat ms" using assms by (simp add: word_less_nat_alt)
  moreover have "unat ms < 2 ^ LENGTH('w)" by (rule unsigned_less)
  ultimately have "Suc (unat a) < 2 ^ LENGTH('w)" by linarith
  then have "unat a + unat (1::'w::len word) < 2 ^ LENGTH('w)" by simp
  then have "unat (a + 1) = unat a + unat (1::'w::len word)" by (simp only: unat_add_lem)
  then show ?thesis by simp
qed

lemma next_index_lt:
  assumes "a < (ms::'w::len word)"
  shows "\<exists>nx. next_index ms a = Some nx \<and> unat nx = Suc (unat a) mod unat ms \<and> nx < ms"
proof -
  have nz: "ms \<noteq> 0" using assms by auto
  then have pos: "0 < unat ms" by (simp add: unat_gt_0)
  have "next_index ms a = Some ((a + 1) mod ms)" using nz by (simp add: next_index_def)
  moreover have u: "unat ((a + 1) mod ms) = Suc (unat a) mod unat ms"
    using unat_succ_lt [OF assms] by (simp add: unat_mod)
  moreover have "unat ((a + 1) mod ms) < unat ms" using u pos by simp
  ultimately show ?thesis by (simp add: word_less_nat_alt)
qed

lemma size_wrapped:
  fixes w r ms :: "'w::len word"
  assumes "w < r" "r < ms"
  shows "unat ((w + ms) - r) = unat w + unat ms - unat r"
proof -
  have le: "unat r \<le> unat w + unat ms" and lt: "unat w < unat r"
    using assms by (simp_all add: word_less_nat_alt)
  have "unat w + unat ms - unat r < unat ms" using lt le by linarith
  also have "\<dots> < 2 ^ LENGTH('w)" by (rule unsigned_less)
  finally have b: "unat w + unat ms - unat r < 2 ^ LENGTH('w)" .
  have "(of_nat (unat w + unat ms - unat r) :: 'w::len word) = (w + ms) - r"
    using le by simp
  then have "unat ((w + ms) - r) = unat (of_nat (unat w + unat ms - unat r) :: 'w::len word)" by simp
  also have "\<dots> = unat w + unat ms - unat r" using b by (simp add: unat_of_nat)
  finally show ?thesis .
qed

lemma size_distance:
  assumes "read_index_atomic s < ms" "write_index_atomic s < ms"
  shows "unat (size_rb ms s) =
           (if unat (read_index_atomic s) \<le> unat (write_index_atomic s)
            then unat (write_index_atomic s) - unat (read_index_atomic s)
            else unat (write_index_atomic s) + unat ms - unat (read_index_atomic s))"
proof (cases "write_index_atomic s < read_index_atomic s")
  case True
  then show ?thesis using size_wrapped [OF True assms(1)]
    by (simp add: size_rb_def word_less_nat_alt)
next
  case False
  then have "read_index_atomic s \<le> write_index_atomic s" by simp
  then show ?thesis using False by (simp add: size_rb_def unat_sub word_le_nat_alt)
qed

section \<open>The operations keep the occupied slots in order\<close>

lemma holds_ctor:
  assumes "ms \<noteq> 0"
  shows "holds ms (ringbuffer_base_ctor ms) []"
  using assms by (simp add: holds_def ringbuffer_base_ctor_def unat_gt_0 word_neq_0_conv)

lemma holds_trace:
  "holds ms (s\<lparr>trace := tr\<rparr>) xs = holds ms s xs"
  by (simp add: holds_def)

lemma holds_write_lt:
  assumes "holds ms s xs"
  shows "write_index_atomic s < ms"
proof -
  have "unat (write_index_atomic s) < unat ms"
    using assms by (simp add: holds_def)
  then show ?thesis by (simp add: word_less_nat_alt)
qed

lemma holds_empty_iff:
  assumes "holds ms s xs"
  shows "write_index_atomic s = read_index_atomic s \<longleftrightarrow> xs = []"
proof -
  let ?n = "unat ms" and ?r = "unat (read_index_atomic s)"
  have r: "?r < ?n" and l: "length xs < ?n"
    and w: "unat (write_index_atomic s) = (?r + length xs) mod ?n"
    using assms by (simp_all add: holds_def word_less_nat_alt)
  have "write_index_atomic s = read_index_atomic s \<longleftrightarrow> unat (write_index_atomic s) = ?r"
    by (simp add: word_unat_eq_iff)
  also have "\<dots> \<longleftrightarrow> (?r + length xs) mod ?n = (?r + 0) mod ?n" using w r by simp
  also have "\<dots> \<longleftrightarrow> length xs = 0" using cyc_inj [of "length xs" ?n 0 ?r] l by auto
  finally show ?thesis by simp
qed


lemma push_full:
  assumes h: "holds ms s xs" and full: "Suc (length xs) = unat ms"
  shows "push ms v s = Some (False, s)"
proof -
  let ?n = "unat ms" and ?r = "unat (read_index_atomic s)"
  have r: "?r < ?n" and l: "length xs < ?n"
    and w: "unat (write_index_atomic s) = (?r + length xs) mod ?n"
    using h by (simp_all add: holds_def word_less_nat_alt)
  obtain nx where nx: "next_index ms (write_index_atomic s) = Some nx"
    and u: "unat nx = Suc (unat (write_index_atomic s)) mod ?n"
    using next_index_lt [OF holds_write_lt [OF h]] by blast
  have "unat nx = ?r" using u w full_iff [OF r l] full by simp
  then have "nx = read_index_atomic s" by (simp add: word_unat_eq_iff)
  then show ?thesis using nx by (simp add: push_def)
qed

lemma push_room:
  assumes h: "holds ms s xs" and room: "Suc (length xs) < unat ms"
  shows "\<exists>nx. push ms v s =
           Some (True, s\<lparr>buffer := (buffer s)[unat (write_index_atomic s) := Live v],
                          trace := trace s @ [Copy_Construct (unat (write_index_atomic s)) v],
                          write_index_atomic := nx\<rparr>) \<and>
         holds ms (s\<lparr>buffer := (buffer s)[unat (write_index_atomic s) := Live v],
                       trace := trace s @ [Copy_Construct (unat (write_index_atomic s)) v],
                       write_index_atomic := nx\<rparr>) (xs @ [v])"
proof -
  let ?n = "unat ms" and ?r = "unat (read_index_atomic s)" and ?w = "unat (write_index_atomic s)"
  have len: "length (buffer s) = ?n" and r: "?r < ?n" and l: "length xs < ?n"
    and w: "?w = (?r + length xs) mod ?n"
    and live: "\<And>k. k < length xs \<Longrightarrow> buffer s ! ((?r + k) mod ?n) = Live (xs ! k)"
    and raw: "\<And>j. j < ?n \<Longrightarrow> (\<forall>k<length xs. j \<noteq> (?r + k) mod ?n) \<Longrightarrow> buffer s ! j = Raw"
    using h by (simp_all add: holds_def word_less_nat_alt)
  have wlt: "?w < ?n" using w r by simp
  obtain nx where nx: "next_index ms (write_index_atomic s) = Some nx"
    and u: "unat nx = Suc ?w mod ?n"
    using next_index_lt [OF holds_write_lt [OF h]] by blast
  have "unat nx \<noteq> ?r" using u w full_iff [OF r l] room by simp
  then have ne: "nx \<noteq> read_index_atomic s" by auto
  let ?s' = "s\<lparr>buffer := (buffer s)[?w := Live v],
                 trace := trace s @ [Copy_Construct ?w v],
                 write_index_atomic := nx\<rparr>"
  have p: "push ms v s = Some (True, ?s')"
    using nx ne wlt len by (simp add: push_def construct_at_def Let_def)
  have u': "unat nx = (?r + length (xs @ [v])) mod ?n"
    using u w by (simp add: mod_Suc_eq)
  have live': "buffer ?s' ! ((?r + k) mod ?n) = Live ((xs @ [v]) ! k)" if k: "k < length (xs @ [v])" for k
  proof (cases "k < length xs")
    case True
    have "(?r + k) mod ?n \<noteq> ?w"
      using cyc_inj [of k ?n "length xs" ?r] True l w by auto
    then show ?thesis using live [OF True] True by (simp add: nth_append)
  next
    case False
    then have "k = length xs" using k by simp
    then show ?thesis using w wlt len by (simp add: nth_append)
  qed
  have raw': "buffer ?s' ! j = Raw"
    if j: "j < ?n" and out: "\<forall>k<length (xs @ [v]). j \<noteq> (?r + k) mod ?n" for j
  proof -
    have "j \<noteq> ?w" using out w by auto
    moreover have "\<forall>k<length xs. j \<noteq> (?r + k) mod ?n" using out by auto
    ultimately show ?thesis using raw [OF j] by simp
  qed
  have "holds ms ?s' (xs @ [v])"
    unfolding holds_def
    using len r room u' live' raw' by (simp add: word_less_nat_alt)
  with p show ?thesis by blast
qed


lemma holds_advance:
  assumes h: "holds ms s (x # xs)"
    and nx: "unat nx = Suc (unat (read_index_atomic s)) mod unat ms"
  shows "holds ms (s\<lparr>buffer := (buffer s)[unat (read_index_atomic s) := Raw],
                      trace := tr, read_index_atomic := nx\<rparr>) xs"
proof -
  let ?n = "unat ms" and ?r = "unat (read_index_atomic s)" and ?w = "unat (write_index_atomic s)"
  let ?s' = "s\<lparr>buffer := (buffer s)[?r := Raw], trace := tr, read_index_atomic := nx\<rparr>"
  have len: "length (buffer s) = ?n" and r: "?r < ?n" and l: "Suc (length xs) < ?n"
    and w: "?w = (?r + Suc (length xs)) mod ?n"
    and live: "\<And>k. k < Suc (length xs) \<Longrightarrow> buffer s ! ((?r + k) mod ?n) = Live ((x # xs) ! k)"
    and raw: "\<And>j. j < ?n \<Longrightarrow> (\<forall>k<Suc (length xs). j \<noteq> (?r + k) mod ?n) \<Longrightarrow> buffer s ! j = Raw"
    using h by (simp_all add: holds_def word_less_nat_alt)
  have shift: "(unat nx + k) mod ?n = (?r + Suc k) mod ?n" for k
    using nx by (simp add: mod_add_left_eq)
  have nxlt: "unat nx < ?n" using nx r by simp
  have w': "?w = (unat nx + length xs) mod ?n" using w shift by simp
  have live': "buffer ?s' ! ((unat nx + k) mod ?n) = Live (xs ! k)" if k: "k < length xs" for k
  proof -
    have "(?r + Suc k) mod ?n \<noteq> ?r"
      using cyc_inj [of "Suc k" ?n 0 ?r] k l r by auto
    then show ?thesis using live [of "Suc k"] k shift by simp
  qed
  have raw': "buffer ?s' ! j = Raw"
    if j: "j < ?n" and out: "\<forall>k<length xs. j \<noteq> (unat nx + k) mod ?n" for j
  proof (cases "j = ?r")
    case True
    then show ?thesis using r len by simp
  next
    case False
    have "j \<noteq> (?r + k) mod ?n" if "k < Suc (length xs)" for k
    proof (cases k)
      case 0
      then show ?thesis using False r by simp
    next
      case (Suc k')
      then show ?thesis using out that shift [of k'] by auto
    qed
    then show ?thesis using raw [OF j] False by simp
  qed
  show ?thesis
    unfolding holds_def
    using len nxlt l w' live' raw' by (simp add: word_less_nat_alt)
qed

lemma holds_head:
  assumes h: "holds ms s (x # xs)"
  shows "slot_at (read_index_atomic s) s = Some (Live x)"
proof -
  have "length (buffer s) = unat ms" and r: "unat (read_index_atomic s) < unat ms"
    and "buffer s ! ((unat (read_index_atomic s) + 0) mod unat ms) = Live ((x # xs) ! 0)"
    using h unfolding holds_def by (simp add: word_less_nat_alt, simp add: word_less_nat_alt, blast)
  then show ?thesis by (simp add: slot_at_def)
qed

lemma pop_empty:
  assumes "holds ms s []"
  shows "pop ms out s = Some (False, out, s)"
  using holds_empty_iff [OF assms] by (simp add: pop_def empty_indices_def)

lemma pop_Cons:
  assumes h: "holds ms s (x # xs)"
  shows "\<exists>nx. next_index ms (read_index_atomic s) = Some nx \<and>
         unat nx = Suc (unat (read_index_atomic s)) mod unat ms \<and>
         pop ms out s =
           Some (True, Live x,
                 s\<lparr>buffer := (buffer s)[unat (read_index_atomic s) := Raw],
                    trace := trace s @ [Copy_Assign (unat (read_index_atomic s)) (Live x),
                                        Destroy (unat (read_index_atomic s)) (Live x)],
                    read_index_atomic := nx\<rparr>) \<and>
         holds ms (s\<lparr>buffer := (buffer s)[unat (read_index_atomic s) := Raw],
                    trace := trace s @ [Copy_Assign (unat (read_index_atomic s)) (Live x),
                                        Destroy (unat (read_index_atomic s)) (Live x)],
                    read_index_atomic := nx\<rparr>) xs"
proof -
  have rlt: "read_index_atomic s < ms" using h by (simp add: holds_def)
  obtain nx where nx: "next_index ms (read_index_atomic s) = Some nx"
    and u: "unat nx = Suc (unat (read_index_atomic s)) mod unat ms"
    using next_index_lt [OF rlt] by blast
  have ne: "write_index_atomic s \<noteq> read_index_atomic s"
    using holds_empty_iff [OF h] by simp
  have "pop ms out s =
          Some (True, Live x,
                s\<lparr>buffer := (buffer s)[unat (read_index_atomic s) := Raw],
                   trace := trace s @ [Copy_Assign (unat (read_index_atomic s)) (Live x),
                                       Destroy (unat (read_index_atomic s)) (Live x)],
                   read_index_atomic := nx\<rparr>)"
    using holds_head [OF h] nx ne
    by (simp add: pop_def empty_indices_def copy_from_def destroy_at_def slot_at_def Let_def
             split: if_splits)
  then show ?thesis using nx u holds_advance [OF h u] by blast
qed

lemma consume_one_empty:
  assumes "holds ms s []"
  shows "consume_one ms f fs s = Some (False, fs, s)"
  using holds_empty_iff [OF assms] by (simp add: consume_one_def empty_indices_def)

lemma consume_one_Cons:
  assumes h: "holds ms s (x # xs)"
  shows "\<exists>nx. next_index ms (read_index_atomic s) = Some nx \<and>
         unat nx = Suc (unat (read_index_atomic s)) mod unat ms \<and>
         consume_one ms f fs s =
           Some (True, f (Live x) fs,
                 s\<lparr>buffer := (buffer s)[unat (read_index_atomic s) := Raw],
                    trace := trace s @ [Destroy (unat (read_index_atomic s)) (Live x)],
                    read_index_atomic := nx\<rparr>) \<and>
         holds ms (s\<lparr>buffer := (buffer s)[unat (read_index_atomic s) := Raw],
                    trace := trace s @ [Destroy (unat (read_index_atomic s)) (Live x)],
                    read_index_atomic := nx\<rparr>) xs"
proof -
  have rlt: "read_index_atomic s < ms" using h by (simp add: holds_def)
  obtain nx where nx: "next_index ms (read_index_atomic s) = Some nx"
    and u: "unat nx = Suc (unat (read_index_atomic s)) mod unat ms"
    using next_index_lt [OF rlt] by blast
  have ne: "write_index_atomic s \<noteq> read_index_atomic s"
    using holds_empty_iff [OF h] by simp
  have "consume_one ms f fs s =
          Some (True, f (Live x) fs,
                s\<lparr>buffer := (buffer s)[unat (read_index_atomic s) := Raw],
                   trace := trace s @ [Destroy (unat (read_index_atomic s)) (Live x)],
                   read_index_atomic := nx\<rparr>)"
    using holds_head [OF h] nx ne
    by (simp add: consume_one_def empty_indices_def destroy_at_def slot_at_def Let_def
             split: if_splits)
  then show ?thesis using nx u holds_advance [OF h u] by blast
qed

lemma holds_size:
  assumes h: "holds ms s xs"
  shows "unat (size_rb ms s) = length xs"
proof -
  let ?n = "unat ms" and ?r = "unat (read_index_atomic s)" and ?w = "unat (write_index_atomic s)"
  have r: "?r < ?n" and l: "length xs < ?n" and w: "?w = (?r + length xs) mod ?n"
    using h by (simp_all add: holds_def word_less_nat_alt)
  have rl: "read_index_atomic s < ms" using h by (simp add: holds_def)
  show ?thesis
  proof (cases "?r + length xs < ?n")
    case True
    then have "?w = ?r + length xs" using w by simp
    then show ?thesis using size_distance [OF rl holds_write_lt [OF h]] by simp
  next
    case False
    then have "?n \<le> ?r + length xs" by simp
    moreover have "?r + length xs - ?n < ?n" using r l by simp
    ultimately have "?w = ?r + length xs - ?n" using w by (simp add: mod_if le_mod_geq)
    then show ?thesis using size_distance [OF rl holds_write_lt [OF h]] False r l by simp
  qed
qed

lemma drain_holds:
  assumes "holds ms s xs"
  shows "\<exists>s'. drain ms out s = Some (last (out # map Live xs), s') \<and>
              holds ms s' [] \<and>
              trace s' = trace s @ drain_calls (unat ms) (unat (read_index_atomic s)) xs \<and>
              write_index_atomic s' = write_index_atomic s \<and>
              pending_pop_read_index s' = pending_pop_read_index s"
  using assms
proof (induction xs arbitrary: s out)
  case Nil
  have "drain ms out s = Some (out, s)"
    using pop_empty [OF Nil.prems, of out] by (subst drain.simps) simp
  then show ?case using Nil.prems by simp
next
  case (Cons x xs)
  let ?r = "unat (read_index_atomic s)"
  obtain nx where u: "unat nx = Suc ?r mod unat ms"
    and p1: "pop ms out s =
           Some (True, Live x,
                 s\<lparr>buffer := (buffer s)[?r := Raw],
                    trace := trace s @ [Copy_Assign ?r (Live x), Destroy ?r (Live x)],
                    read_index_atomic := nx\<rparr>)"
    using pop_Cons [OF Cons.prems, of out] by blast
  let ?s1 = "s\<lparr>buffer := (buffer s)[?r := Raw],
                 trace := trace s @ [Copy_Assign ?r (Live x), Destroy ?r (Live x)],
                 read_index_atomic := nx\<rparr>"
  have h1: "holds ms ?s1 xs" using holds_advance [OF Cons.prems u] by simp
  obtain s' where d: "drain ms (Live x) ?s1 = Some (last (Live x # map Live xs), s')"
    and h': "holds ms s' []"
    and t: "trace s' = trace ?s1 @ drain_calls (unat ms) (unat (read_index_atomic ?s1)) xs"
    and w: "write_index_atomic s' = write_index_atomic ?s1"
    and pe: "pending_pop_read_index s' = pending_pop_read_index ?s1"
    using Cons.IH [OF h1, of "Live x"] by blast
  have "drain ms out s = Some (last (out # map Live (x # xs)), s')"
    using p1 d by (subst drain.simps) simp
  moreover have "trace s' = trace s @ drain_calls (unat ms) ?r (x # xs)"
    using t u by simp
  ultimately show ?case using h' w pe by simp
qed

lemma holds_live_count:
  assumes h: "holds ms s xs"
  shows "length (filter (\<lambda>c. c \<noteq> Raw) (buffer s)) = length xs"
proof -
  let ?n = "unat ms" and ?r = "unat (read_index_atomic s)"
  let ?f = "\<lambda>k. (?r + k) mod ?n"
  have len: "length (buffer s) = ?n" and r: "?r < ?n" and l: "length xs < ?n"
    and live: "\<And>k. k < length xs \<Longrightarrow> buffer s ! ?f k = Live (xs ! k)"
    and raw: "\<And>j. j < ?n \<Longrightarrow> (\<forall>k<length xs. j \<noteq> ?f k) \<Longrightarrow> buffer s ! j = Raw"
    using h by (simp_all add: holds_def word_less_nat_alt)
  have "{i. i < length (buffer s) \<and> buffer s ! i \<noteq> Raw} = ?f ` {..<length xs}"
  proof (intro set_eqI iffI)
    fix j assume "j \<in> {i. i < length (buffer s) \<and> buffer s ! i \<noteq> Raw}"
    then have "j < ?n" and "buffer s ! j \<noteq> Raw" using len by simp_all
    then have "\<not> (\<forall>k<length xs. j \<noteq> ?f k)" using raw by blast
    then show "j \<in> ?f ` {..<length xs}" by auto
  next
    fix j assume "j \<in> ?f ` {..<length xs}"
    then obtain k where k: "k < length xs" and j: "j = ?f k" by auto
    have "j < ?n" using j r by simp
    then show "j \<in> {i. i < length (buffer s) \<and> buffer s ! i \<noteq> Raw}"
      using live [OF k] j len by simp
  qed
  moreover have "inj_on ?f {..<length xs}"
  proof (rule inj_onI)
    fix k k' assume "k \<in> {..<length xs}" "k' \<in> {..<length xs}" "?f k = ?f k'"
    then show "k = k'" using cyc_inj [of k ?n k' ?r] l by simp
  qed
  ultimately have "card {i. i < length (buffer s) \<and> buffer s ! i \<noteq> Raw} = length xs"
    by (simp add: card_image)
  then show ?thesis by (simp add: length_filter_conv_card)
qed

section \<open>Traces\<close>

lemma destroyed_append: "destroyed (tr @ tr') = destroyed tr @ destroyed tr'"
  by (induction tr rule: destroyed.induct) simp_all

lemma destroyed_drain_calls:
  "destroyed (drain_calls n r xs) = zip (map (\<lambda>k. (r + k) mod n) [0..<length xs]) (map Live xs)" if "r < n"
  using that
proof (induction xs arbitrary: r)
  case Nil
  then show ?case by simp
next
  case (Cons x xs)
  have pos: "Suc r mod n < n" using Cons.prems by simp
  have sh: "map (\<lambda>k. (Suc r mod n + k) mod n) [0..<length xs]
            = map (\<lambda>k. (r + k) mod n) (map Suc [0..<length xs])"
    by (simp add: mod_add_left_eq)
  have "[0..<length (x # xs)] = 0 # map Suc [0..<length xs]"
    by (simp add: upt_conv_Cons map_Suc_upt del: upt_Suc)
  then show ?case using Cons.IH [OF pos] Cons.prems sh by simp
qed

section \<open>Every state a producer and a consumer can reach\<close>

lemma client_ok_start:
  "ms \<noteq> 0 \<Longrightarrow> client_ok ms (start ms out0) []"
  by (simp add: client_ok_def start_def holds_ctor)

lemma step_push_ok:
  assumes ok: "client_ok ms c xs"
  shows "\<exists>c' xs'. step ms (Push v) c = Some c' \<and> client_ok ms c' xs'"
proof -
  have h: "holds ms (queue c) xs"
    and m: "map Live (pushed c) = received c @ map Live xs"
    using ok by (simp_all add: client_ok_def)
  then have "length xs < unat ms" by (simp add: holds_def)
  then consider (room) "Suc (length xs) < unat ms" | (full) "Suc (length xs) = unat ms"
    by linarith
  then show ?thesis
  proof cases
    case room
    obtain q where p: "push ms v (queue c) = Some (True, q)" and hq: "holds ms q (xs @ [v])"
      using push_room [OF h room, of v] by blast
    let ?c' = "c\<lparr>queue := q, pushed := pushed c @ [v], returns := returns c @ [True]\<rparr>"
    have "step ms (Push v) c = Some ?c'" using p by simp
    moreover have "client_ok ms ?c' (xs @ [v])" using hq m by (simp add: client_ok_def)
    ultimately show ?thesis by blast
  next
    case full
    let ?c' = "c\<lparr>queue := queue c, pushed := pushed c, returns := returns c @ [False]\<rparr>"
    have "step ms (Push v) c = Some ?c'" using push_full [OF h full, of v] by simp
    moreover have "client_ok ms ?c' xs" using h m by (simp add: client_ok_def)
    ultimately show ?thesis by blast
  qed
qed

lemma step_pop_ok:
  assumes ok: "client_ok ms c xs"
  shows "\<exists>c' xs'. step ms Pop c = Some c' \<and> client_ok ms c' xs'"
proof -
  have h: "holds ms (queue c) xs"
    and m: "map Live (pushed c) = received c @ map Live xs"
    using ok by (simp_all add: client_ok_def)
  show ?thesis
  proof (cases xs)
    case Nil
    let ?c' = "c\<lparr>queue := queue c, out_var := out_var c, received := received c,
                   returns := returns c @ [False]\<rparr>"
    have "step ms Pop c = Some ?c'"
      using pop_empty [of ms "queue c" "out_var c"] h Nil by simp
    moreover have "client_ok ms ?c' xs" using h m by (simp add: client_ok_def)
    ultimately show ?thesis by blast
  next
    case (Cons x xs')
    then have hx: "holds ms (queue c) (x # xs')" using h by simp
    obtain q where p: "pop ms (out_var c) (queue c) = Some (True, Live x, q)"
      and hq: "holds ms q xs'"
      using pop_Cons [OF hx, of "out_var c"] by blast
    let ?c' = "c\<lparr>queue := q, out_var := Live x, received := received c @ [Live x],
                   returns := returns c @ [True]\<rparr>"
    have "step ms Pop c = Some ?c'" using p by simp
    moreover have "client_ok ms ?c' xs'" using hq m Cons by (simp add: client_ok_def)
    ultimately show ?thesis by blast
  qed
qed

lemma step_consume_ok:
  assumes ok: "client_ok ms c xs"
  shows "\<exists>c' xs'. step ms Consume_One c = Some c' \<and> client_ok ms c' xs'"
proof -
  have h: "holds ms (queue c) xs"
    and m: "map Live (pushed c) = received c @ map Live xs"
    using ok by (simp_all add: client_ok_def)
  show ?thesis
  proof (cases xs)
    case Nil
    let ?c' = "c\<lparr>queue := queue c, received := received c, returns := returns c @ [False]\<rparr>"
    have "step ms Consume_One c = Some ?c'"
      using consume_one_empty [of ms "queue c" recorder "received c"] h Nil by simp
    moreover have "client_ok ms ?c' xs" using h m by (simp add: client_ok_def)
    ultimately show ?thesis by blast
  next
    case (Cons x xs')
    then have hx: "holds ms (queue c) (x # xs')" using h by simp
    obtain q where p: "consume_one ms recorder (received c) (queue c)
                         = Some (True, recorder (Live x) (received c), q)"
      and hq: "holds ms q xs'"
      using consume_one_Cons [OF hx, of recorder "received c"] by blast
    let ?c' = "c\<lparr>queue := q, received := received c @ [Live x],
                   returns := returns c @ [True]\<rparr>"
    have "step ms Consume_One c = Some ?c'" using p by (simp add: recorder_def)
    moreover have "client_ok ms ?c' xs'" using hq m Cons by (simp add: client_ok_def)
    ultimately show ?thesis by blast
  qed
qed

lemma step_ok:
  assumes "client_ok ms c xs"
  shows "\<exists>c' xs'. step ms x c = Some c' \<and> client_ok ms c' xs'"
proof (cases x)
  case (Push v)
  then show ?thesis using step_push_ok [OF assms, of v] by simp
next
  case Pop
  then show ?thesis using step_pop_ok [OF assms] by simp
next
  case Consume_One
  then show ?thesis using step_consume_ok [OF assms] by simp
qed

lemma run_ok:
  assumes "client_ok ms c xs"
  shows "\<exists>c' xs'. run ms ops c = Some c' \<and> client_ok ms c' xs'"
  using assms
proof (induction ops arbitrary: c xs)
  case Nil
  then show ?case by auto
next
  case (Cons x ops)
  obtain c1 xs1 where "step ms x c = Some c1" and "client_ok ms c1 xs1"
    using step_ok [OF Cons.prems] by blast
  then show ?case using Cons.IH [of c1 xs1] by simp
qed

lemma reachable_ok:
  assumes "ms \<noteq> 0"
  shows "\<exists>c xs. run ms ops (start ms out0) = Some c \<and> client_ok ms c xs"
  using run_ok [OF client_ok_start [OF assms]] by blast

lemma reachable_client_ok:
  assumes "ms \<noteq> 0" and "run ms ops (start ms out0) = Some c"
  shows "\<exists>xs. client_ok ms c xs"
  using reachable_ok [OF assms(1), of ops out0] assms(2) by auto

lemma client_ok_elements:
  assumes "client_ok ms c xs"
  shows "xs = drop (length (received c)) (pushed c)"
proof -
  have "map Live (pushed c) = received c @ map Live xs"
    using assms by (simp add: client_ok_def)
  then have "drop (length (received c)) (map Live (pushed c)) = map Live xs" by simp
  then have "map Live (drop (length (received c)) (pushed c)) = map Live xs"
    by (simp add: drop_map)
  then show ?thesis by (simp add: inj_def)
qed

lemma client_ok_facts:
  assumes "client_ok ms c xs"
  shows "prefix (received c) (map Live (pushed c))"
    and "length (received c) + unat (size_rb ms (queue c)) = length (pushed c)"
    and "empty_rb (queue c) \<Longrightarrow> received c = map Live (pushed c)"
proof -
  have h: "holds ms (queue c) xs"
    and m: "map Live (pushed c) = received c @ map Live xs"
    using assms by (simp_all add: client_ok_def)
  show "prefix (received c) (map Live (pushed c))" using m by (simp add: prefix_def)
  have "length (map Live (pushed c)) = length (received c @ map Live xs)" using m by simp
  then show "length (received c) + unat (size_rb ms (queue c)) = length (pushed c)"
    using holds_size [OF h] by simp
  show "received c = map Live (pushed c)" if "empty_rb (queue c)"
    using that holds_empty_iff [OF h] m by (simp add: empty_rb_def empty_indices_def)
qed

lemma run_pushes:
  assumes "client_ok ms c xs" and "length xs + length vs < unat ms"
  shows "\<exists>c'. run ms (map Push vs) c = Some c' \<and> client_ok ms c' (xs @ vs) \<and>
              returns c' = returns c @ replicate (length vs) True \<and>
              pushed c' = pushed c @ vs \<and> received c' = received c"
  using assms
proof (induction vs arbitrary: c xs)
  case Nil
  then show ?case by simp
next
  case (Cons v vs)
  have h: "holds ms (queue c) xs"
    and m: "map Live (pushed c) = received c @ map Live xs"
    using Cons.prems(1) by (simp_all add: client_ok_def)
  have room: "Suc (length xs) < unat ms" using Cons.prems(2) by simp
  obtain q where p: "push ms v (queue c) = Some (True, q)" and hq: "holds ms q (xs @ [v])"
    using push_room [OF h room, of v] by blast
  let ?c1 = "c\<lparr>queue := q, pushed := pushed c @ [v], returns := returns c @ [True]\<rparr>"
  have s1: "step ms (Push v) c = Some ?c1" using p by simp
  have ok1: "client_ok ms ?c1 (xs @ [v])" using hq m by (simp add: client_ok_def)
  have "length (xs @ [v]) + length vs < unat ms" using Cons.prems(2) by simp
  then obtain c' where r: "run ms (map Push vs) ?c1 = Some c'"
    and ok': "client_ok ms c' ((xs @ [v]) @ vs)"
    and rt: "returns c' = returns ?c1 @ replicate (length vs) True"
    and pu: "pushed c' = pushed ?c1 @ vs"
    and re: "received c' = received ?c1"
    using Cons.IH [OF ok1] by blast
  have "run ms (map Push (v # vs)) c = Some c'" using s1 r by simp
  moreover have "returns c' = returns c @ replicate (length (v # vs)) True"
    using rt by (simp add: replicate_app_Cons_same)
  ultimately show ?case using ok' pu re by simp
qed

lemma step_returns:
  assumes "step ms x c = Some c'"
  shows "length (returns c') = Suc (length (returns c))"
  using assms by (cases x) (auto simp: bind_eq_Some_conv)

lemma run_returns:
  assumes "run ms ops c = Some c'"
  shows "length (returns c') = length (returns c) + length ops"
  using assms
proof (induction ops arbitrary: c)
  case Nil
  then show ?case by simp
next
  case (Cons x ops)
  then obtain c1 where s: "step ms x c = Some c1" and r: "run ms ops c1 = Some c'"
    by (auto simp: bind_eq_Some_conv)
  show ?case using step_returns [OF s] Cons.IH [OF r] by simp
qed

section \<open>The two ways to fail\<close>

lemma push_false_iff:
  "(\<exists>s'. push ms t s = Some (False, s')) \<longleftrightarrow>
     next_index ms (write_index_atomic s) = Some (read_index_atomic s)"
  by (auto simp: push_def Let_def bind_eq_Some_conv split: if_splits)

lemma push_false_same:
  "push ms t s = Some (False, s') \<Longrightarrow> s' = s"
  by (auto simp: push_def Let_def bind_eq_Some_conv split: if_splits)

lemma pop_false_iff:
  "(\<exists>r' s'. pop ms ret s = Some (False, r', s')) \<longleftrightarrow> write_index_atomic s = read_index_atomic s"
  by (auto simp: pop_def Let_def empty_indices_def bind_eq_Some_conv split: if_splits prod.splits)

lemma pop_false_same:
  "pop ms ret s = Some (False, r', s') \<Longrightarrow> r' = ret \<and> s' = s"
  by (auto simp: pop_def Let_def empty_indices_def bind_eq_Some_conv split: if_splits prod.splits)

lemma consume_one_false_iff:
  "(\<exists>fs' s'. consume_one ms f fs s = Some (False, fs', s')) \<longleftrightarrow>
     write_index_atomic s = read_index_atomic s"
  by (auto simp: consume_one_def Let_def empty_indices_def bind_eq_Some_conv split: if_splits)

lemma consume_one_false_same:
  "consume_one ms f fs s = Some (False, fs', s') \<Longrightarrow> fs' = fs \<and> s' = s"
  by (auto simp: consume_one_def Let_def empty_indices_def bind_eq_Some_conv split: if_splits)

section \<open>Evaluation\<close>

lemma replicate_numeral: "replicate (numeral n) c = c # replicate (pred_numeral n) c"
  by (simp add: numeral_eq_Suc)

lemmas eval_defs = start_def ringbuffer_base_ctor_def push_def pop_def consume_one_def
  next_index_def construct_at_def copy_from_def destroy_at_def slot_at_def empty_indices_def
  empty_rb_def size_rb_def recorder_def

section \<open>Properties of the queue\<close>

text \<open>
  C1. First in, first out. Whatever calls a producer and a consumer make on a fresh queue
  with at least one slot, every call returns, what the successful \<^verbatim>\<open>pop\<close> and
  \<^verbatim>\<open>consume_one\<close> calls delivered is, in order, a prefix of the values of the
  successful \<^verbatim>\<open>push\<close> calls, each delivered as a live object; the values not yet
  delivered are as many as \<^verbatim>\<open>size()\<close> reports, and once the queue is empty the two
  sequences are equal. Pushing 1, 2, 3 into a queue of capacity 4 (\<open>max_size = 5\<close>) and
  popping three times delivers 1, 2, 3.
\<close>

theorem fifo_order:
  "(max_size \<noteq> 0 \<longrightarrow>
      (\<exists>c. run max_size ops (start max_size out0) = Some c \<and>
           prefix (received c) (map Live (pushed c)) \<and>
           length (received c) + unat (size_rb max_size (queue c)) = length (pushed c) \<and>
           (empty_rb (queue c) \<longrightarrow> received c = map Live (pushed c)))) \<and>
   map_option received
     (run (5 :: 64 word) [Push 1, Push 2, Push 3, Pop, Pop, Pop] (start 5 out1))
     = Some [Live (1 :: int), Live 2, Live 3]"
proof (intro conjI impI)
  assume nz: "max_size \<noteq> 0"
  obtain c xs where r: "run max_size ops (start max_size out0) = Some c"
    and ok: "client_ok max_size c xs"
    using reachable_ok [OF nz, of ops out0] by blast
  show "\<exists>c. run max_size ops (start max_size out0) = Some c \<and>
           prefix (received c) (map Live (pushed c)) \<and>
           length (received c) + unat (size_rb max_size (queue c)) = length (pushed c) \<and>
           (empty_rb (queue c) \<longrightarrow> received c = map Live (pushed c))"
    using r client_ok_facts [OF ok] by blast
next
  show "map_option received
     (run (5 :: 64 word) [Push 1, Push 2, Push 3, Pop, Pop, Pop] (start 5 out1))
     = Some [Live (1 :: int), Live 2, Live 3]"
    by (simp add: eval_defs)
qed

text \<open>
  A queue of capacity 2 that wraps around, is found full once and empty once, and is
  read through both \<^verbatim>\<open>pop\<close> and \<^verbatim>\<open>consume_one\<close>.
\<close>

theorem fifo_order_witness:
  "(3 :: 64 word) \<noteq> 0 \<and>
   (\<exists>c. run (3 :: 64 word) [Push (10 :: nat), Push 20, Consume_One, Push 30, Push 40, Pop, Push 50, Pop,
               Consume_One, Pop]
            (start 3 Raw) = Some c \<and>
        pushed c = [10, 20, 30, 50] \<and>
        received c = [Live 10, Live 20, Live 30, Live 50] \<and>
        returns c = [True, True, True, True, False, True, True, True, True, False] \<and>
        prefix (received c) (map Live (pushed c)) \<and>
        length (received c) + unat (size_rb 3 (queue c)) = length (pushed c) \<and>
        empty_rb (queue c))"
  using fifo_order [of "3 :: 64 word" "[Push (10 :: nat), Push 20, Consume_One, Push 30, Push 40, Pop, Push 50,
    Pop, Consume_One, Pop]" Raw Raw]
  by (simp add: eval_defs)

text \<open>
  C2. A queue of capacity \<open>N\<close> has a block of \<open>max_size = N + 1\<close> slots. Whenever a
  producer and a consumer have left it empty (the fresh queue is the case of no call at
  all), \<open>N\<close> calls of \<^verbatim>\<open>push\<close> in a row all return \<^verbatim>\<open>true\<close>, \<^verbatim>\<open>size()\<close> is then \<open>N\<close>,
  and one more \<^verbatim>\<open>push\<close> returns \<^verbatim>\<open>false\<close> and changes nothing. For capacity 3: the
  fresh queue is empty; of four pushes the first three succeed and the fourth fails,
  leaving the size at 3; after three pops the queue is empty again; a fourth pop fails.
\<close>

theorem capacity_bound:
  "(unat max_size = Suc N \<and> length vs = N \<and>
    run max_size ops (start max_size out0) = Some c0 \<and> empty_rb (queue c0) \<longrightarrow>
      (\<exists>c. run max_size (map Push vs) c0 = Some c \<and>
           length (buffer (queue c0)) = Suc N \<and>
           returns c = returns c0 @ replicate N True \<and>
           pushed c = pushed c0 @ vs \<and>
           unat (size_rb max_size (queue c)) = N \<and>
           push max_size v (queue c) = Some (False, queue c))) \<and>
   empty_rb (ringbuffer_base_ctor 4 :: (int, 64) ringbuffer_base) \<and>
   map_option (\<lambda>c. (returns c, unat (size_rb 4 (queue c))))
     (run (4 :: 64 word) [Push 1, Push 2, Push 3, Push 4] (start 4 out1))
     = Some ([True, True, True, False], 3) \<and>
   map_option (\<lambda>c. (returns c, empty_rb (queue c)))
     (run (4 :: 64 word) [Push 1, Push 2, Push 3, Push 4, Pop, Pop, Pop] (start 4 out1))
     = Some ([True, True, True, False, True, True, True], True) \<and>
   map_option (\<lambda>c. (returns c, received c))
     (run (4 :: 64 word) [Push 1, Push 2, Push 3, Push 4, Pop, Pop, Pop, Pop] (start 4 out1))
     = Some ([True, True, True, False, True, True, True, False],
             [Live (1 :: int), Live 2, Live 3])"
proof (intro conjI impI)
  assume a: "unat max_size = Suc N \<and> length vs = N \<and>
    run max_size ops (start max_size out0) = Some c0 \<and> empty_rb (queue c0)"
  then have "unat max_size \<noteq> 0" by simp
  then have nz: "max_size \<noteq> 0" by auto
  obtain xs where ok: "client_ok max_size c0 xs"
    using reachable_client_ok [OF nz, of ops out0 c0] a by blast
  then have h0: "holds max_size (queue c0) xs" by (simp add: client_ok_def)
  have "xs = []"
    using holds_empty_iff [OF h0] a by (simp add: empty_rb_def empty_indices_def)
  then have ok0: "client_ok max_size c0 []" using ok by simp
  have "\<exists>c'. run max_size (map Push vs) c0 = Some c' \<and>
          client_ok max_size c' ([] @ vs) \<and>
          returns c' = returns c0 @ replicate (length vs) True \<and>
          pushed c' = pushed c0 @ vs \<and>
          received c' = received c0"
    using a by (intro run_pushes [OF ok0]) simp
  then obtain c where r: "run max_size (map Push vs) c0 = Some c"
    and ok': "client_ok max_size c ([] @ vs)"
    and rt: "returns c = returns c0 @ replicate (length vs) True"
    and pu: "pushed c = pushed c0 @ vs"
    by blast
  have h: "holds max_size (queue c) vs" using ok' by (simp add: client_ok_def)
  have "push max_size v (queue c) = Some (False, queue c)"
    using push_full [OF h] a by simp
  moreover have "unat (size_rb max_size (queue c)) = N" using holds_size [OF h] a by simp
  moreover have "returns c = returns c0 @ replicate N True" using rt a by simp
  moreover have "length (buffer (queue c0)) = Suc N" using h0 a by (simp add: holds_def)
  ultimately show "\<exists>c. run max_size (map Push vs) c0 = Some c \<and>
           length (buffer (queue c0)) = Suc N \<and>
           returns c = returns c0 @ replicate N True \<and>
           pushed c = pushed c0 @ vs \<and>
           unat (size_rb max_size (queue c)) = N \<and>
           push max_size v (queue c) = Some (False, queue c)"
    using r pu by blast
qed (simp_all add: eval_defs)

text \<open>
  Three slots, emptied after one push and one pop, so that the two pushes that follow
  wrap around the end of the block.
\<close>

theorem capacity_bound_witness:
  "unat (3 :: 64 word) = Suc 2 \<and> length [7 :: nat, 8] = 2 \<and>
   run (3 :: 64 word) [Push 6, Pop] (start 3 Raw) =
     Some \<lparr>queue = \<lparr>write_index_atomic = 1, read_index_atomic = 1, pending_pop_read_index = 0,
                    buffer = [Raw, Raw, Raw],
                    trace = [Copy_Construct 0 6, Copy_Assign 0 (Live 6), Destroy 0 (Live 6)]\<rparr>,
           out_var = Live 6, pushed = [6], received = [Live 6], returns = [True, True]\<rparr> \<and>
   (\<exists>c. run (3 :: 64 word) (map Push [7 :: nat, 8])
            \<lparr>queue = \<lparr>write_index_atomic = 1, read_index_atomic = 1,
                       pending_pop_read_index = 0, buffer = [Raw, Raw, Raw],
                       trace = [Copy_Construct 0 6, Copy_Assign 0 (Live 6),
                                Destroy 0 (Live 6)]\<rparr>,
              out_var = Live 6, pushed = [6], received = [Live 6], returns = [True, True]\<rparr>
          = Some c \<and>
        returns c = [True, True, True, True] \<and> pushed c = [6, 7, 8] \<and>
        write_index_atomic (queue c) = 0 \<and> read_index_atomic (queue c) = 1 \<and>
        buffer (queue c) = [Raw, Live 7, Live 8] \<and>
        unat (size_rb 3 (queue c)) = 2 \<and>
        push 3 9 (queue c) = Some (False, queue c))"
proof -
  let ?c0 = "\<lparr>queue = \<lparr>write_index_atomic = 1 :: 64 word, read_index_atomic = 1,
                       pending_pop_read_index = 0, buffer = [Raw, Raw, Raw],
                       trace = [Copy_Construct 0 (6 :: nat), Copy_Assign 0 (Live 6),
                                Destroy 0 (Live 6)]\<rparr>,
              out_var = Live 6, pushed = [6], received = [Live 6], returns = [True, True]\<rparr>"
  have r: "run (3 :: 64 word) [Push 6, Pop] (start 3 Raw) = Some ?c0"
    by (simp add: eval_defs replicate_numeral)
  have e: "empty_rb (queue ?c0)" by (simp add: eval_defs)
  show ?thesis
    using capacity_bound [of "3 :: 64 word" 2 "[7 :: nat, 8]" "[Push 6, Pop]" Raw ?c0 9 Raw] r e
    by (simp add: eval_defs replicate_numeral)
qed

text \<open>
  C3. With \<open>capacity\<close> usable slots, that is \<open>max_size = capacity + 1\<close>, advancing an
  index between 0 and \<open>capacity\<close> has a defined result, \<open>(index + 1) mod (capacity + 1)\<close>
  without any wrap-around of the addition, and advancing \<open>capacity\<close> itself gives 0.
  Nothing is asked of \<open>capacity\<close> but that \<open>capacity + 1\<close> is a \<^verbatim>\<open>size_t\<close>; it need not
  be a power of two.
\<close>

theorem next_index_wraps:
  assumes "unat max_size = capacity + 1" and "unat index \<le> capacity"
  shows "\<exists>nx. next_index max_size index = Some nx \<and>
              unat nx = (unat index + 1) mod (capacity + 1) \<and>
              (unat index = capacity \<longrightarrow> nx = 0)"
proof -
  have "unat index < unat max_size" using assms by simp
  then have lt: "index < max_size" by (simp add: word_less_nat_alt)
  obtain nx where nx: "next_index max_size index = Some nx"
    and u: "unat nx = Suc (unat index) mod unat max_size"
    using next_index_lt [OF lt] by blast
  have "unat nx = (unat index + 1) mod (capacity + 1)" using u assms(1) by simp
  moreover have "nx = 0" if "unat index = capacity"
  proof -
    have "unat nx = 0" using u assms(1) that by simp
    then show ?thesis by (simp add: unat_eq_0)
  qed
  ultimately show ?thesis using nx by blast
qed

theorem next_index_wraps_witness:
  "unat (5 :: 64 word) = 4 + 1 \<and> unat (4 :: 64 word) \<le> 4 \<and>
   next_index (5 :: 64 word) 4 = Some 0 \<and> unat (0 :: 64 word) = (unat (4 :: 64 word) + 1) mod (4 + 1)"
  using next_index_wraps [of "5 :: 64 word" 4 4] by simp

text \<open>
  C4. \<^verbatim>\<open>push\<close> returns \<^verbatim>\<open>false\<close> exactly when advancing the write cursor gives the
  read cursor, and then the state (trace included) is as before. \<^verbatim>\<open>pop\<close> and
  \<^verbatim>\<open>consume_one\<close> return \<^verbatim>\<open>false\<close> exactly when the two cursors are equal, and
  then the state is as before, the caller's variable holds what it held, and the functor
  has not run. These are the only ways to fail: in every sequence of calls on a fresh
  queue with at least one slot, every call returns \<^verbatim>\<open>true\<close> or \<^verbatim>\<open>false\<close>.
\<close>

theorem full_and_empty_only:
  "((\<exists>s'. push max_size t s = Some (False, s')) \<longleftrightarrow>
      next_index max_size (write_index_atomic s) = Some (read_index_atomic s)) \<and>
   (push max_size t s = Some (False, s1) \<longrightarrow> s1 = s) \<and>
   ((\<exists>r' s'. pop max_size ret s = Some (False, r', s')) \<longleftrightarrow>
      write_index_atomic s = read_index_atomic s) \<and>
   (pop max_size ret s = Some (False, ret2, s2) \<longrightarrow> ret2 = ret \<and> s2 = s) \<and>
   ((\<exists>fs' s'. consume_one max_size f fs s = Some (False, fs', s')) \<longleftrightarrow>
      write_index_atomic s = read_index_atomic s) \<and>
   (consume_one max_size f fs s = Some (False, fs3, s3) \<longrightarrow> fs3 = fs \<and> s3 = s) \<and>
   (max_size \<noteq> 0 \<longrightarrow>
      (\<exists>c. run max_size ops (start max_size out0) = Some c \<and>
           length (returns c) = length ops))"
proof (intro conjI impI)
  show "(\<exists>s'. push max_size t s = Some (False, s')) \<longleftrightarrow>
      next_index max_size (write_index_atomic s) = Some (read_index_atomic s)"
    by (rule push_false_iff)
next
  assume "push max_size t s = Some (False, s1)"
  then show "s1 = s" by (rule push_false_same)
next
  show "(\<exists>r' s'. pop max_size ret s = Some (False, r', s')) \<longleftrightarrow>
      write_index_atomic s = read_index_atomic s"
    by (rule pop_false_iff)
next
  assume p: "pop max_size ret s = Some (False, ret2, s2)"
  show "ret2 = ret" using pop_false_same [OF p] by simp
  show "s2 = s" using pop_false_same [OF p] by simp
next
  show "(\<exists>fs' s'. consume_one max_size f fs s = Some (False, fs', s')) \<longleftrightarrow>
      write_index_atomic s = read_index_atomic s"
    by (rule consume_one_false_iff)
next
  assume p: "consume_one max_size f fs s = Some (False, fs3, s3)"
  show "fs3 = fs" using consume_one_false_same [OF p] by simp
  show "s3 = s" using consume_one_false_same [OF p] by simp
next
  assume nz: "max_size \<noteq> 0"
  obtain c xs where r: "run max_size ops (start max_size out0) = Some c"
    and "client_ok max_size c xs"
    using reachable_ok [OF nz, of ops out0] by blast
  have "length (returns c) = length ops" using run_returns [OF r] by (simp add: start_def)
  then show "\<exists>c. run max_size ops (start max_size out0) = Some c \<and>
           length (returns c) = length ops" using r by blast
qed

text \<open>
  The full queue of capacity 2 for \<^verbatim>\<open>push\<close>, the fresh one for \<^verbatim>\<open>pop\<close> and
  \<^verbatim>\<open>consume_one\<close>.
\<close>

theorem full_and_empty_only_witness:
  "push (3 :: 64 word) (9 :: nat)
       \<lparr>write_index_atomic = 2, read_index_atomic = 0, pending_pop_read_index = 0,
         buffer = [Live 7, Live 8, Raw], trace = [Copy_Construct 0 7, Copy_Construct 1 8]\<rparr>
     = Some (False,
         \<lparr>write_index_atomic = 2, read_index_atomic = 0, pending_pop_read_index = 0,
           buffer = [Live 7, Live 8, Raw], trace = [Copy_Construct 0 7, Copy_Construct 1 8]\<rparr>) \<and>
   next_index (3 :: 64 word) 2 = Some 0 \<and>
   pop (3 :: 64 word) (Live (5 :: nat)) (ringbuffer_base_ctor 3)
     = Some (False, Live 5, ringbuffer_base_ctor 3) \<and>
   consume_one (3 :: 64 word) recorder [] (ringbuffer_base_ctor 3 :: (nat, 64) ringbuffer_base)
     = Some (False, [], ringbuffer_base_ctor 3) \<and>
   (3 :: 64 word) \<noteq> 0 \<and>
   (\<exists>c. run (3 :: 64 word) [Pop, Push (7 :: nat), Push 8, Push 9] (start 3 Raw) = Some c \<and>
        returns c = [False, True, True, False])"
  using
    full_and_empty_only [of "3 :: 64 word" "9 :: nat"
      "\<lparr>write_index_atomic = 2, read_index_atomic = 0, pending_pop_read_index = 0,
        buffer = [Live 7, Live 8, Raw], trace = [Copy_Construct 0 7, Copy_Construct 1 8]\<rparr>"
      "\<lparr>write_index_atomic = 2, read_index_atomic = 0, pending_pop_read_index = 0,
        buffer = [Live 7, Live 8, Raw], trace = [Copy_Construct 0 7, Copy_Construct 1 8]\<rparr>"
      Raw Raw _ recorder "[]" "[]" _ "[Pop, Push 7, Push 8, Push 9]" Raw]
    full_and_empty_only [of "3 :: 64 word" "9 :: nat"
      "ringbuffer_base_ctor 3" "ringbuffer_base_ctor 3"
      "Live 5" "Live 5" "ringbuffer_base_ctor 3" recorder "[]" "[]" "ringbuffer_base_ctor 3"
      "[]" Raw]
  by (simp add: eval_defs)

text \<open>
  C5, as the class has it. Take any state that a producer and a consumer can reach;
  \<open>remaining c\<close> are the values pushed and not yet delivered. The destructor returns. It
  default-constructs its local \<^verbatim>\<open>out\<close>, then for each remaining element, oldest first,
  copy-assigns the element's slot to \<^verbatim>\<open>out\<close> and runs the destructor of \<^verbatim>\<open>T\<close> on
  that slot, frees the block and destroys \<^verbatim>\<open>out\<close>. The destructor calls on slots are
  those made before plus exactly one for each occupied slot, each of them on a live
  object and no two on the same slot; their number is what \<^verbatim>\<open>size()\<close> reported. So
  \<^verbatim>\<open>T\<close> has to be default-constructible and copy-assignable besides copy-constructible
  and destructible, and on an empty queue the loop makes no call but \<^verbatim>\<open>out\<close> is still
  constructed and destroyed.
\<close>

theorem destructor_drains:
  assumes "max_size \<noteq> 0" and "run max_size ops (start max_size out0) = Some c"
  shows "map_option trace (ringbuffer_base_dtor max_size dflt (queue c)) =
           Some (trace (queue c) @
                 Default_Construct #
                 drain_calls (unat max_size) (unat (read_index_atomic (queue c))) (remaining c) @
                 [Destroy_Local (last (Live dflt # map Live (remaining c)))]) \<and>
         map_option (\<lambda>s'. destroyed (trace s')) (ringbuffer_base_dtor max_size dflt (queue c)) =
           Some (destroyed (trace (queue c)) @
                 zip (slots_from_read max_size (queue c) (length (remaining c)))
                     (map Live (remaining c))) \<and>
         distinct (slots_from_read max_size (queue c) (length (remaining c))) \<and>
         length (remaining c) = unat (size_rb max_size (queue c)) \<and>
         map_option buffer (ringbuffer_base_dtor max_size dflt (queue c)) = Some []"
proof -
  let ?q = "queue c" and ?n = "unat max_size"
  let ?r = "unat (read_index_atomic ?q)"
  obtain xs where ok: "client_ok max_size c xs"
    using reachable_client_ok [OF assms] by blast
  then have h: "holds max_size ?q xs" by (simp add: client_ok_def)
  have xs: "remaining c = xs" using client_ok_elements [OF ok] by (simp add: remaining_def)
  have rlt: "?r < ?n" and llt: "length xs < ?n"
    using h by (simp_all add: holds_def word_less_nat_alt)
  let ?s0 = "?q\<lparr>trace := trace ?q @ [Default_Construct]\<rparr>"
  have h0: "holds max_size ?s0 xs" using h by (simp add: holds_trace)
  obtain s1 where d: "drain max_size (Live dflt) ?s0 = Some (last (Live dflt # map Live xs), s1)"
    and t1: "trace s1 = trace ?s0 @ drain_calls ?n (unat (read_index_atomic ?s0)) xs"
    using drain_holds [OF h0, of "Live dflt"] by blast
  let ?s' = "s1\<lparr>buffer := [],
                  trace := trace s1 @ [Destroy_Local (last (Live dflt # map Live xs))]\<rparr>"
  have r: "ringbuffer_base_dtor max_size dflt ?q = Some ?s'"
    using d by (simp add: ringbuffer_base_dtor_def)
  have t: "trace ?s' = trace ?q @ Default_Construct # drain_calls ?n ?r xs @
             [Destroy_Local (last (Live dflt # map Live xs))]"
    using t1 by simp
  have de: "destroyed (trace ?s') = destroyed (trace ?q) @
          zip (slots_from_read max_size ?q (length xs)) (map Live xs)"
    unfolding t slots_from_read_def
    by (simp add: destroyed_append destroyed_drain_calls [OF rlt])
  have di: "distinct (slots_from_read max_size ?q (length xs))"
    unfolding slots_from_read_def by (rule cyc_distinct [OF llt])
  have sz: "length xs = unat (size_rb max_size ?q)" using holds_size [OF h] by simp
  show ?thesis unfolding xs r using t de di sz by simp
qed

text \<open>Three slots; the elements 20 and 30 remain, in slots 1 and 2.\<close>

theorem destructor_drains_witness:
  "(3 :: 64 word) \<noteq> 0 \<and>
   run (3 :: 64 word) [Push (10 :: nat), Push 20, Pop, Push 30] (start 3 Raw) =
     Some \<lparr>queue = \<lparr>write_index_atomic = 0, read_index_atomic = 1, pending_pop_read_index = 0,
                    buffer = [Raw, Live 20, Live 30],
                    trace = [Copy_Construct 0 10, Copy_Construct 1 20,
                             Copy_Assign 0 (Live 10), Destroy 0 (Live 10),
                             Copy_Construct 2 30]\<rparr>,
           out_var = Live 10, pushed = [10, 20, 30], received = [Live 10],
           returns = [True, True, True, True]\<rparr> \<and>
   map_option trace (ringbuffer_base_dtor (3 :: 64 word) 0
       \<lparr>write_index_atomic = 0, read_index_atomic = 1, pending_pop_read_index = 0,
         buffer = [Raw, Live (20 :: nat), Live 30],
         trace = [Copy_Construct 0 10, Copy_Construct 1 20,
                  Copy_Assign 0 (Live 10), Destroy 0 (Live 10),
                  Copy_Construct 2 30]\<rparr>) =
     Some [Copy_Construct 0 10, Copy_Construct 1 20,
           Copy_Assign 0 (Live 10), Destroy 0 (Live 10), Copy_Construct 2 30,
           Default_Construct,
           Copy_Assign 1 (Live 20), Destroy 1 (Live 20),
           Copy_Assign 2 (Live 30), Destroy 2 (Live 30),
           Destroy_Local (Live 30)] \<and>
   map_option (\<lambda>s'. destroyed (trace s')) (ringbuffer_base_dtor (3 :: 64 word) 0
       \<lparr>write_index_atomic = 0, read_index_atomic = 1, pending_pop_read_index = 0,
         buffer = [Raw, Live (20 :: nat), Live 30],
         trace = [Copy_Construct 0 10, Copy_Construct 1 20,
                  Copy_Assign 0 (Live 10), Destroy 0 (Live 10),
                  Copy_Construct 2 30]\<rparr>) =
     Some [(0, Live 10), (1, Live 20), (2, Live 30)]"
proof -
  let ?q = "\<lparr>write_index_atomic = 0 :: 64 word, read_index_atomic = 1,
             pending_pop_read_index = 0,
             buffer = [Raw, Live (20 :: nat), Live 30],
             trace = [Copy_Construct 0 10, Copy_Construct 1 20,
                      Copy_Assign 0 (Live 10), Destroy 0 (Live 10),
                      Copy_Construct 2 30]\<rparr>"
  let ?c = "\<lparr>queue = ?q, out_var = Live 10, pushed = [10, 20, 30], received = [Live 10],
           returns = [True, True, True, True]\<rparr>"
  have nz: "(3 :: 64 word) \<noteq> 0" by simp
  have r: "run (3 :: 64 word) [Push (10 :: nat), Push 20, Pop, Push 30] (start 3 Raw) = Some ?c"
    by (simp add: eval_defs replicate_numeral)
  have m: "remaining ?c = [20, 30]" by (simp add: remaining_def)
  have two: "Suc (Suc 0) = 2" by simp
  note th = destructor_drains [OF nz r, of 0, unfolded m]
  have t: "map_option trace (ringbuffer_base_dtor (3 :: 64 word) 0 ?q) =
     Some [Copy_Construct 0 10, Copy_Construct 1 20,
           Copy_Assign 0 (Live 10), Destroy 0 (Live 10), Copy_Construct 2 30,
           Default_Construct,
           Copy_Assign 1 (Live 20), Destroy 1 (Live 20),
           Copy_Assign 2 (Live 30), Destroy 2 (Live 30),
           Destroy_Local (Live 30)]"
    using th [THEN conjunct1] by (simp add: two)
  have d: "map_option (\<lambda>s'. destroyed (trace s')) (ringbuffer_base_dtor (3 :: 64 word) 0 ?q) =
     Some [(0, Live 10), (1, Live 20), (2, Live 30)]"
    using th [THEN conjunct2, THEN conjunct1] by (simp add: slots_from_read_def upt_rec two)
  show ?thesis by (intro conjI nz r t d)
qed

text \<open>
  C5 as stated fails in its second half. Destroying a fresh, empty queue calls the
  default constructor of \<^verbatim>\<open>T\<close> (for \<^verbatim>\<open>T out;\<close>), and \<^verbatim>\<open>pop\<close> on a queue that
  holds one element calls the copy assignment of \<^verbatim>\<open>T\<close> (for
  \<^verbatim>\<open>ret = buffer[read_index]\<close>): neither is a copy construction or a destruction.
\<close>

theorem destructor_capabilities_counterexample:
  "ringbuffer_base_dtor (4 :: 64 word) (0 :: int) (ringbuffer_base_ctor 4) =
     Some \<lparr>write_index_atomic = 0, read_index_atomic = 0, pending_pop_read_index = 0,
            buffer = [], trace = [Default_Construct, Destroy_Local (Live 0)]\<rparr> \<and>
   \<not> list_all copy_construct_or_destroy [Default_Construct, Destroy_Local (Live (0 :: int))] \<and>
   pop (4 :: 64 word) Raw
       \<lparr>write_index_atomic = 1, read_index_atomic = 0, pending_pop_read_index = 0,
         buffer = [Live (1 :: int), Raw, Raw, Raw], trace = [Copy_Construct 0 1]\<rparr> =
     Some (True, Live 1,
           \<lparr>write_index_atomic = 1, read_index_atomic = 1, pending_pop_read_index = 0,
             buffer = [Raw, Raw, Raw, Raw],
             trace = [Copy_Construct 0 1, Copy_Assign 0 (Live 1), Destroy 0 (Live 1)]\<rparr>) \<and>
   \<not> list_all copy_construct_or_destroy
       [Copy_Construct 0 1, Copy_Assign 0 (Live 1), Destroy 0 (Live (1 :: int))]"
proof (intro conjI)
  show "ringbuffer_base_dtor (4 :: 64 word) (0 :: int) (ringbuffer_base_ctor 4) =
     Some \<lparr>write_index_atomic = 0, read_index_atomic = 0, pending_pop_read_index = 0,
            buffer = [], trace = [Default_Construct, Destroy_Local (Live 0)]\<rparr>"
    unfolding ringbuffer_base_dtor_def
    by (subst drain.simps) (simp add: eval_defs)
qed (simp_all add: eval_defs)

text \<open>
  C6. In a state whose cursors differ and whose slot at the read cursor holds an element
  \<open>x\<close>, \<^verbatim>\<open>front()\<close> refers to that slot, and \<^verbatim>\<open>front()\<close> followed by the
  \<^verbatim>\<open>pop()\<close> without argument ends with the same write cursor, the same read cursor
  and the same buffer as \<^verbatim>\<open>pop(out)\<close>; each of the two ways adds one destructor call,
  on that slot and its element \<open>x\<close>. (The consumer's own \<^verbatim>\<open>pending_pop_read_index\<close>,
  which \<^verbatim>\<open>front()\<close> sets and \<^verbatim>\<open>pop(out)\<close> does not read or write, and the copy
  assignment to \<^verbatim>\<open>out\<close> are not part of the comparison.)
\<close>

theorem front_release_equals_pop:
  assumes "write_index_atomic s \<noteq> read_index_atomic s"
    and "slot_at (read_index_atomic s) s = Some (Live x)"
    and "max_size \<noteq> 0"
  shows "\<exists>s2 s3. fst (front s) = read_index_atomic s \<and>
           pop_noarg max_size (snd (front s)) = Some s2 \<and>
           pop max_size out s = Some (True, Live x, s3) \<and>
           write_index_atomic s2 = write_index_atomic s3 \<and>
           read_index_atomic s2 = read_index_atomic s3 \<and>
           buffer s2 = buffer s3 \<and>
           destroyed (trace s2) = destroyed (trace s) @ [(unat (read_index_atomic s), Live x)] \<and>
           destroyed (trace s3) = destroyed (trace s) @ [(unat (read_index_atomic s), Live x)]"
proof -
  let ?r = "read_index_atomic s"
  let ?nx = "(?r + 1) mod max_size"
  let ?b = "(buffer s)[unat ?r := Raw]"
  let ?s2 = "s\<lparr>pending_pop_read_index := ?r, buffer := ?b,
                 trace := trace s @ [Destroy (unat ?r) (Live x)], read_index_atomic := ?nx\<rparr>"
  let ?s3 = "s\<lparr>buffer := ?b,
                 trace := trace s @ [Copy_Assign (unat ?r) (Live x), Destroy (unat ?r) (Live x)],
                 read_index_atomic := ?nx\<rparr>"
  have inb: "unat ?r < length (buffer s)" and live: "buffer s ! unat ?r = Live x"
    using assms(2) by (simp_all add: slot_at_def split: if_splits)
  have f: "front s = (?r, s\<lparr>pending_pop_read_index := ?r\<rparr>)"
    by (simp add: front_def Let_def)
  have n: "next_index max_size ?r = Some ?nx" using assms(3) by (simp add: next_index_def)
  have p2: "pop_noarg max_size (snd (front s)) = Some ?s2"
    using f n inb live by (simp add: pop_noarg_def destroy_at_def slot_at_def)
  have p3: "pop max_size out s = Some (True, Live x, ?s3)"
    using assms(1) n inb live
    by (simp add: pop_def empty_indices_def copy_from_def destroy_at_def slot_at_def Let_def)
  have d2: "destroyed (trace ?s2) = destroyed (trace s) @ [(unat ?r, Live x)]"
    by (simp add: destroyed_append)
  have d3: "destroyed (trace ?s3) = destroyed (trace s) @ [(unat ?r, Live x)]"
    by (simp add: destroyed_append)
  show ?thesis
  proof (intro exI conjI)
    show "fst (front s) = ?r" using f by simp
    show "pop_noarg max_size (snd (front s)) = Some ?s2" by (rule p2)
    show "pop max_size out s = Some (True, Live x, ?s3)" by (rule p3)
    show "write_index_atomic ?s2 = write_index_atomic ?s3" by simp
    show "read_index_atomic ?s2 = read_index_atomic ?s3" by simp
    show "buffer ?s2 = buffer ?s3" by simp
    show "destroyed (trace ?s2) = destroyed (trace s) @ [(unat ?r, Live x)]" by (rule d2)
    show "destroyed (trace ?s3) = destroyed (trace s) @ [(unat ?r, Live x)]" by (rule d3)
  qed
qed

text \<open>The state after \<^verbatim>\<open>push(6)\<close>, \<^verbatim>\<open>push(7)\<close>, \<^verbatim>\<open>pop(out)\<close> on three slots.\<close>

theorem front_release_equals_pop_witness:
  "write_index_atomic \<lparr>write_index_atomic = 2, read_index_atomic = 1, pending_pop_read_index = 0,
      buffer = [Raw, Live (7 :: nat), Raw],
      trace = [Copy_Construct 0 6, Copy_Construct 1 7, Copy_Assign 0 (Live 6),
               Destroy 0 (Live 6)]\<rparr> \<noteq> (1 :: 64 word) \<and>
   (3 :: 64 word) \<noteq> 0 \<and>
   pop_noarg (3 :: 64 word) (snd (front \<lparr>write_index_atomic = 2, read_index_atomic = 1,
      pending_pop_read_index = 0, buffer = [Raw, Live (7 :: nat), Raw],
      trace = [Copy_Construct 0 6, Copy_Construct 1 7, Copy_Assign 0 (Live 6),
               Destroy 0 (Live 6)]\<rparr>))
     = Some \<lparr>write_index_atomic = 2, read_index_atomic = 2, pending_pop_read_index = 1,
         buffer = [Raw, Raw, Raw],
         trace = [Copy_Construct 0 6, Copy_Construct 1 7, Copy_Assign 0 (Live 6),
                  Destroy 0 (Live 6), Destroy 1 (Live 7)]\<rparr> \<and>
   pop (3 :: 64 word) (Live 6) \<lparr>write_index_atomic = 2, read_index_atomic = 1,
      pending_pop_read_index = 0, buffer = [Raw, Live (7 :: nat), Raw],
      trace = [Copy_Construct 0 6, Copy_Construct 1 7, Copy_Assign 0 (Live 6),
               Destroy 0 (Live 6)]\<rparr>
     = Some (True, Live 7, \<lparr>write_index_atomic = 2, read_index_atomic = 2,
         pending_pop_read_index = 0, buffer = [Raw, Raw, Raw],
         trace = [Copy_Construct 0 6, Copy_Construct 1 7, Copy_Assign 0 (Live 6),
                  Destroy 0 (Live 6), Copy_Assign 1 (Live 7), Destroy 1 (Live 7)]\<rparr>)"
  using front_release_equals_pop [of "\<lparr>write_index_atomic = 2, read_index_atomic = 1,
      pending_pop_read_index = 0, buffer = [Raw, Live (7 :: nat), Raw],
      trace = [Copy_Construct 0 6, Copy_Construct 1 7, Copy_Assign 0 (Live 6),
               Destroy 0 (Live 6)]\<rparr>" 7 "3 :: 64 word" "Live 6"]
  by (simp add: eval_defs front_def pop_noarg_def)

text \<open>
  C7. With both cursors inside a block of \<open>capacity + 1\<close> slots, \<^verbatim>\<open>size()\<close> is the
  write cursor minus the read cursor where that is not negative, and that difference
  plus \<open>capacity + 1\<close> where it is; a wrap-around of the sum in
  \<^verbatim>\<open>(write_index + max_size) - read_index\<close> does not change the value. In every state
  that a producer and a consumer can reach, it is the number of slots that hold a live
  object, and the number of values pushed and not yet delivered.
\<close>

theorem size_cyclic_distance:
  "(unat max_size = capacity + 1 \<and> read_index_atomic s < max_size \<and>
    write_index_atomic s < max_size \<longrightarrow>
      uint (size_rb max_size s) =
        (if 0 \<le> uint (write_index_atomic s) - uint (read_index_atomic s)
         then uint (write_index_atomic s) - uint (read_index_atomic s)
         else uint (write_index_atomic s) - uint (read_index_atomic s) + (int capacity + 1))) \<and>
   (max_size \<noteq> 0 \<and> run max_size ops (start max_size out0) = Some c \<longrightarrow>
      unat (size_rb max_size (queue c)) = length (filter (\<lambda>x. x \<noteq> Raw) (buffer (queue c))) \<and>
      unat (size_rb max_size (queue c)) = length (pushed c) - length (received c))"
proof (intro conjI impI)
  assume a: "unat max_size = capacity + 1 \<and> read_index_atomic s < max_size \<and>
    write_index_atomic s < max_size"
  then have r: "read_index_atomic s < max_size" and w: "write_index_atomic s < max_size"
    and n: "unat max_size = capacity + 1"
    by simp_all
  define R W S where "R = unat (read_index_atomic s)" and "W = unat (write_index_atomic s)"
    and "S = unat (size_rb max_size s)"
  have ur: "uint (read_index_atomic s) = int R" and uw: "uint (write_index_atomic s) = int W"
    and us: "uint (size_rb max_size s) = int S"
    by (simp_all add: R_def W_def S_def)
  have "R < capacity + 1" using r n by (simp add: word_less_nat_alt R_def)
  moreover have "S = (if R \<le> W then W - R else W + (capacity + 1) - R)"
    using size_distance [OF r w] n by (simp add: R_def W_def S_def)
  ultimately have "int S = (if 0 \<le> int W - int R then int W - int R
                            else int W - int R + (int capacity + 1))"
    by auto
  then show "uint (size_rb max_size s) =
        (if 0 \<le> uint (write_index_atomic s) - uint (read_index_atomic s)
         then uint (write_index_atomic s) - uint (read_index_atomic s)
         else uint (write_index_atomic s) - uint (read_index_atomic s) + (int capacity + 1))"
    by (simp only: ur uw us)
next
  assume a: "max_size \<noteq> 0 \<and> run max_size ops (start max_size out0) = Some c"
  then obtain xs where ok: "client_ok max_size c xs"
    using reachable_client_ok [of max_size ops out0 c] by blast
  then have h: "holds max_size (queue c) xs" by (simp add: client_ok_def)
  show "unat (size_rb max_size (queue c)) = length (filter (\<lambda>x. x \<noteq> Raw) (buffer (queue c)))"
    using holds_size [OF h] holds_live_count [OF h] by simp
  show "unat (size_rb max_size (queue c)) = length (pushed c) - length (received c)"
    using holds_size [OF h] client_ok_elements [OF ok] by simp
qed

text \<open>Five slots, the write cursor (1) behind the read cursor (3): three elements.\<close>

theorem size_cyclic_distance_witness:
  "unat (5 :: 64 word) = 4 + 1 \<and> (3 :: 64 word) < 5 \<and> (1 :: 64 word) < 5 \<and>
   (5 :: 64 word) \<noteq> 0 \<and>
   run (5 :: 64 word) [Push (11 :: nat), Push 12, Push 13, Pop, Push 14, Push 15, Pop, Pop, Push 16]
     (start 5 Raw) =
     Some \<lparr>queue = \<lparr>write_index_atomic = 1, read_index_atomic = 3, pending_pop_read_index = 0,
                    buffer = [Live 16, Raw, Raw, Live 14, Live 15],
                    trace = [Copy_Construct 0 11, Copy_Construct 1 12, Copy_Construct 2 13,
                             Copy_Assign 0 (Live 11), Destroy 0 (Live 11),
                             Copy_Construct 3 14, Copy_Construct 4 15,
                             Copy_Assign 1 (Live 12), Destroy 1 (Live 12),
                             Copy_Assign 2 (Live 13), Destroy 2 (Live 13),
                             Copy_Construct 0 16]\<rparr>,
           out_var = Live 13, pushed = [11, 12, 13, 14, 15, 16],
           received = [Live 11, Live 12, Live 13],
           returns = [True, True, True, True, True, True, True, True, True]\<rparr> \<and>
   uint (size_rb (5 :: 64 word)
                   \<lparr>write_index_atomic = 1, read_index_atomic = 3, pending_pop_read_index = 0,
                    buffer = [Live 16, Raw, Raw, Live 14, Live 15],
                    trace = [Copy_Construct 0 11, Copy_Construct 1 12, Copy_Construct 2 13,
                             Copy_Assign 0 (Live 11), Destroy 0 (Live 11),
                             Copy_Construct 3 14, Copy_Construct 4 15,
                             Copy_Assign 1 (Live 12), Destroy 1 (Live 12),
                             Copy_Assign 2 (Live 13), Destroy 2 (Live (13 :: nat)),
                             Copy_Construct 0 16]\<rparr>) = 1 - 3 + (4 + 1)"
proof -
  let ?q = "\<lparr>write_index_atomic = 1, read_index_atomic = 3, pending_pop_read_index = 0,
                    buffer = [Live 16, Raw, Raw, Live 14, Live 15],
                    trace = [Copy_Construct 0 11, Copy_Construct 1 12, Copy_Construct 2 13,
                             Copy_Assign 0 (Live 11), Destroy 0 (Live 11),
                             Copy_Construct 3 14, Copy_Construct 4 15,
                             Copy_Assign 1 (Live 12), Destroy 1 (Live 12),
                             Copy_Assign 2 (Live 13), Destroy 2 (Live (13 :: nat)),
                             Copy_Construct 0 16]\<rparr>"
  let ?c = "\<lparr>queue = ?q, out_var = Live 13, pushed = [11, 12, 13, 14, 15, 16],
           received = [Live 11, Live 12, Live 13],
           returns = [True, True, True, True, True, True, True, True, True]\<rparr>"
  let ?ops = "[Push (11 :: nat), Push 12, Push 13, Pop, Push 14, Push 15, Pop, Pop, Push 16]"
  have r: "run (5 :: 64 word) ?ops (start 5 Raw) = Some ?c"
    by (simp add: eval_defs replicate_numeral)
  have "uint (size_rb (5 :: 64 word) ?q) = 1 - 3 + (4 + 1)"
    using size_cyclic_distance [of "5 :: 64 word" 4 ?q ?ops Raw ?c] by simp
  then show ?thesis using r by simp
qed

text \<open>
  C8. \<^verbatim>\<open>reset\<close> stores 0 into both cursors and changes nothing else: the pending
  index and the buffer are as before, and the trace is as before, so no destructor
  (and no other member of \<^verbatim>\<open>T\<close>) has run.
\<close>

theorem reset_frame:
  "write_index_atomic (reset s) = 0 \<and> read_index_atomic (reset s) = 0 \<and>
   pending_pop_read_index (reset s) = pending_pop_read_index s \<and>
   buffer (reset s) = buffer s \<and> trace (reset s) = trace s \<and>
   reset s = s\<lparr>write_index_atomic := 0, read_index_atomic := 0\<rparr>"
  by (simp add: reset_def)

text \<open>
  C10. Neither \<^verbatim>\<open>front()\<close> nor the \<^verbatim>\<open>pop()\<close> without argument looks at the write
  cursor. In every state \<^verbatim>\<open>front()\<close> stores the read cursor in
  \<^verbatim>\<open>pending_pop_read_index\<close> and returns a reference to that slot. In every state
  whose pending index is inside the block, \<^verbatim>\<open>pop()\<close> runs the destructor of \<^verbatim>\<open>T\<close>
  on the slot at the pending index, whatever it holds, and stores the advanced pending
  index into the read cursor. On a fresh queue of four slots, which is empty, the
  reference that \<^verbatim>\<open>front()\<close> returns is to slot 0, which holds no object, and
  \<^verbatim>\<open>pop()\<close> then runs the destructor on it and leaves the read cursor at 1, past the
  write cursor at 0, after which \<^verbatim>\<open>size()\<close> is 3.
\<close>

theorem front_and_release_unchecked:
  "front s = (read_index_atomic s, s\<lparr>pending_pop_read_index := read_index_atomic s\<rparr>) \<and>
   (max_size \<noteq> 0 \<and> unat (pending_pop_read_index s) < length (buffer s) \<longrightarrow>
      pop_noarg max_size s =
        Some (s\<lparr>buffer := (buffer s)[unat (pending_pop_read_index s) := Raw],
                 trace := trace s @ [Destroy (unat (pending_pop_read_index s))
                                       (buffer s ! unat (pending_pop_read_index s))],
                 read_index_atomic := (pending_pop_read_index s + 1) mod max_size\<rparr>)) \<and>
   empty_rb (ringbuffer_base_ctor 4 :: (int, 64) ringbuffer_base) \<and>
   fst (front (ringbuffer_base_ctor 4 :: (int, 64) ringbuffer_base)) = 0 \<and>
   slot_at 0 (ringbuffer_base_ctor 4 :: (int, 64) ringbuffer_base) = Some Raw \<and>
   pop_noarg 4 (snd (front (ringbuffer_base_ctor 4 :: (int, 64) ringbuffer_base)))
     = Some \<lparr>write_index_atomic = 0, read_index_atomic = 1, pending_pop_read_index = 0,
             buffer = [Raw, Raw, Raw, Raw], trace = [Destroy 0 Raw]\<rparr> \<and>
   size_rb (4 :: 64 word)
     \<lparr>write_index_atomic = 0, read_index_atomic = 1, pending_pop_read_index = 0,
       buffer = [Raw, Raw, Raw, Raw], trace = [Destroy 0 (Raw :: int slot)]\<rparr> = 3"
proof (intro conjI impI)
  show "front s = (read_index_atomic s, s\<lparr>pending_pop_read_index := read_index_atomic s\<rparr>)"
    by (simp add: front_def Let_def)
next
  assume "max_size \<noteq> 0 \<and> unat (pending_pop_read_index s) < length (buffer s)"
  then show "pop_noarg max_size s =
        Some (s\<lparr>buffer := (buffer s)[unat (pending_pop_read_index s) := Raw],
                 trace := trace s @ [Destroy (unat (pending_pop_read_index s))
                                       (buffer s ! unat (pending_pop_read_index s))],
                 read_index_atomic := (pending_pop_read_index s + 1) mod max_size\<rparr>)"
    by (simp add: pop_noarg_def destroy_at_def slot_at_def next_index_def)
qed (simp_all add: eval_defs front_def pop_noarg_def replicate_numeral)

text \<open>
  The state after \<^verbatim>\<open>push(5)\<close> and \<^verbatim>\<open>pop(out)\<close> on three slots, and then \<^verbatim>\<open>pop()\<close>
  with no \<^verbatim>\<open>front()\<close> before it: the destructor runs a second time on slot 0.
\<close>

theorem front_and_release_unchecked_witness:
  "(3 :: 64 word) \<noteq> 0 \<and> unat (0 :: 64 word) < length [Raw, Raw, Raw :: nat slot] \<and>
   pop_noarg (3 :: 64 word)
       \<lparr>write_index_atomic = 1, read_index_atomic = 1, pending_pop_read_index = 0,
         buffer = [Raw, Raw, Raw],
         trace = [Copy_Construct 0 (5 :: nat), Copy_Assign 0 (Live 5), Destroy 0 (Live 5)]\<rparr>
     = Some \<lparr>write_index_atomic = 1, read_index_atomic = 1, pending_pop_read_index = 0,
         buffer = [Raw, Raw, Raw],
         trace = [Copy_Construct 0 5, Copy_Assign 0 (Live 5), Destroy 0 (Live 5),
                  Destroy 0 Raw]\<rparr>"
  using front_and_release_unchecked [of "\<lparr>write_index_atomic = 1, read_index_atomic = 1,
      pending_pop_read_index = 0, buffer = [Raw, Raw, Raw],
      trace = [Copy_Construct 0 (5 :: nat), Copy_Assign 0 (Live 5), Destroy 0 (Live 5)]\<rparr>"
    "3 :: 64 word"]
  by simp

end
